theory Spec2Isabelle
  imports Complex_Main "HOL-Library.AList"
begin

section \<open>The in-memory job queue of src/server/queue.ts\<close>

text \<open>
  The class \<open>QueueManager\<close> runs on a single-threaded event loop. Its methods are
  embedded as functions from a manager state to the next one; every stretch of code between
  two \<open>await\<close>s is one such function. What the runtime does for the class is explicit:
  \<^item> the suspended calls of \<open>executeJob\<close> are kept as frames in \<open>suspended\<close>;
  \<^item> what the class does to its surroundings (events emitted, processor calls, timers
    armed, \<open>resolve\<close> and \<open>reject\<close> called) is appended to \<open>effects\<close>, in program order;
  \<^item> the clock reading of \<open>Date.now()\<close> and \<open>new Date()\<close> is the argument \<open>now\<close>
    of the step that reads it;
  \<^item> which of the processor's promise and the timer of \<open>withTimeout\<close> settles first is an
    input of the step that resumes after the \<open>await\<close>.
  Listeners of the emitted events are outside the class and are not modelled; \<open>console.log\<close>
  is left out. The constructor does not check the configuration: \<open>maxConcurrent\<close> is kept as
  the number that the caller passes, a real number (of the values that are no real number,
  \<open>NaN\<close> makes the guard of the dispatch loop false as a ceiling of 0 does, and \<open>Infinity\<close>
  makes it true for every size). The other counts and the durations of the configuration are
  natural numbers. The processor returns a promise, as an \<open>async\<close> function does: an attempt
  fails by the rejection of that promise or by the timer.
\<close>

subsection \<open>Data\<close>

text \<open>The id \<open>job-${Date.now()}-${++this.jobCounter}\<close>: the clock reading and the counter.\<close>

type_synonym job_id = "nat \<times> nat"

datatype QueueJobStatus = Queued | Processing | Completed | Failed

text \<open>
  The fields \<open>resolve\<close> and \<open>reject\<close> of a job are the two callbacks of the promise that
  \<open>enqueue\<close> returns; calling them is an effect (\<open>Resolve\<close>, \<open>Reject\<close> below).
\<close>

record ('t, 'r) QueueJob =
  jobId :: job_id
  data :: 't
  status :: QueueJobStatus
  position :: nat
  createdAt :: nat
  startedAt :: "nat option"
  completedAt :: "nat option"
  result :: "'r option"
  error :: "string option"

record QueueConfig =
  maxConcurrent :: real
  maxQueueSize :: nat
  jobTimeout :: nat
  retryAttempts :: nat
  retryDelay :: nat

definition DEFAULT_CONFIG :: QueueConfig where
  "DEFAULT_CONFIG =
     \<lparr>maxConcurrent = 2, maxQueueSize = 100, jobTimeout = 300000,
      retryAttempts = 3, retryDelay = 2000\<rparr>"

text \<open>\<open>Partial<QueueConfig>\<close>: every field may be absent.\<close>

record PartialQueueConfig =
  maxConcurrent_opt :: "real option"
  maxQueueSize_opt :: "nat option"
  jobTimeout_opt :: "nat option"
  retryAttempts_opt :: "nat option"
  retryDelay_opt :: "nat option"

text \<open>How a promise settles; a rejection is kept by the message of its \<open>Error\<close>
  (line 157 turns any other thrown value into an \<open>Error\<close> of its string).\<close>

datatype 'r settlement = Fulfilled 'r | Rejected string

text \<open>
  The two promises of \<open>Promise.race\<close> in \<open>withTimeout\<close>: either the processor's promise
  settles first, or the timer fires first; in that case the processor's promise may still
  settle later (\<open>Some\<close>) or never (\<open>None\<close>).
\<close>

datatype 'r race = ProcessorFirst "'r settlement" | TimerFirst "'r settlement option"

datatype 'r event =
    jobAdded job_id nat nat
  | jobStarted job_id nat
  | jobCompleted job_id 'r
  | jobFailed job_id string

datatype 'r effect =
    Emit "'r event"
  | CallProcessor job_id nat
  | SetTimeout job_id nat
  | Sleep job_id nat
  | Resolve job_id 'r
  | Reject job_id string

text \<open>A call of \<open>executeJob\<close> suspended at one of its two \<open>await\<close>s, with its local variables.\<close>

datatype awaiting = AwaitAttempt | AwaitSleep

record ('t, 'r) frame =
  fjob :: "('t, 'r) QueueJob"
  attempt :: nat
  lastError :: "string option"
  awaiting :: awaiting

text \<open>
  The fields of the class, then the runtime's part. \<open>processing\<close> is a \<open>Map\<close>: an
  association list in insertion order, \<open>set\<close> is \<open>AList.update\<close>, \<open>delete\<close> is
  \<open>AList.delete\<close>, and \<open>size\<close> is the length (the keys stay distinct, lemma
  \<open>reachable_processing_distinct\<close>). \<open>terminal\<close> keeps each job record as \<open>executeJob\<close>
  leaves it when it returns.
\<close>

record ('t, 'r) QueueManager =
  queue :: "('t, 'r) QueueJob list"
  processing :: "(job_id \<times> ('t, 'r) QueueJob) list"
  config :: QueueConfig
  jobCounter :: nat
  isProcessing :: bool
  suspended :: "('t, 'r) frame list"
  effects :: "'r effect list"
  terminal :: "('t, 'r) QueueJob list"

datatype enqueue_error = QueueFull

subsection \<open>Messages\<close>

text \<open>The three Japanese messages of the source, as their UTF-8 bytes.\<close>

definition timeoutMessage :: string where
  "timeoutMessage =
     [CHR 0xE5, CHR 0x87, CHR 0xA6, CHR 0xE7, CHR 0x90, CHR 0x86, CHR 0xE3, CHR 0x81, CHR 0x8C,
      CHR 0xE3, CHR 0x82, CHR 0xBF, CHR 0xE3, CHR 0x82, CHR 0xA4, CHR 0xE3, CHR 0x83, CHR 0xA0,
      CHR 0xE3, CHR 0x82, CHR 0xA2, CHR 0xE3, CHR 0x82, CHR 0xA6, CHR 0xE3, CHR 0x83, CHR 0x88,
      CHR 0xE3, CHR 0x81, CHR 0x97, CHR 0xE3, CHR 0x81, CHR 0xBE, CHR 0xE3, CHR 0x81, CHR 0x97,
      CHR 0xE3, CHR 0x81, CHR 0x9F]"

definition unknownErrorMessage :: string where
  "unknownErrorMessage =
     [CHR 0xE4, CHR 0xB8, CHR 0x8D, CHR 0xE6, CHR 0x98, CHR 0x8E, CHR 0xE3, CHR 0x81, CHR 0xAA,
      CHR 0xE3, CHR 0x82, CHR 0xA8, CHR 0xE3, CHR 0x83, CHR 0xA9, CHR 0xE3, CHR 0x83, CHR 0xBC]"

definition processingFailedMessage :: string where
  "processingFailedMessage =
     [CHR 0xE5, CHR 0x87, CHR 0xA6, CHR 0xE7, CHR 0x90, CHR 0x86, CHR 0xE3, CHR 0x81, CHR 0xAB,
      CHR 0xE5, CHR 0xA4, CHR 0xB1, CHR 0xE6, CHR 0x95, CHR 0x97, CHR 0xE3, CHR 0x81, CHR 0x97,
      CHR 0xE3, CHR 0x81, CHR 0xBE, CHR 0xE3, CHR 0x81, CHR 0x97, CHR 0xE3, CHR 0x81, CHR 0x9F]"

subsection \<open>Construction\<close>

text \<open>\<open>{ ...DEFAULT_CONFIG, ...config }\<close>\<close>

definition mergeConfig :: "QueueConfig \<Rightarrow> PartialQueueConfig \<Rightarrow> QueueConfig" where
  "mergeConfig d p =
     \<lparr>maxConcurrent = (case maxConcurrent_opt p of None \<Rightarrow> maxConcurrent d | Some v \<Rightarrow> v),
      maxQueueSize = (case maxQueueSize_opt p of None \<Rightarrow> maxQueueSize d | Some v \<Rightarrow> v),
      jobTimeout = (case jobTimeout_opt p of None \<Rightarrow> jobTimeout d | Some v \<Rightarrow> v),
      retryAttempts = (case retryAttempts_opt p of None \<Rightarrow> retryAttempts d | Some v \<Rightarrow> v),
      retryDelay = (case retryDelay_opt p of None \<Rightarrow> retryDelay d | Some v \<Rightarrow> v)\<rparr>"

definition newQueueManager :: "PartialQueueConfig \<Rightarrow> ('t, 'r) QueueManager" where
  "newQueueManager p =
     \<lparr>queue = [], processing = [], config = mergeConfig DEFAULT_CONFIG p, jobCounter = 0,
      isProcessing = False, suspended = [], effects = [], terminal = []\<rparr>"

subsection \<open>withTimeout, sleep and the rate-limit test\<close>

text \<open>\<open>Promise.race\<close> settles as the promise that settles first does; the timer's promise
  rejects with the timeout message.\<close>

definition withTimeout :: "'r race \<Rightarrow> 'r settlement" where
  "withTimeout x = (case x of ProcessorFirst s \<Rightarrow> s | TimerFirst late \<Rightarrow> Rejected timeoutMessage)"

text \<open>\<open>String.prototype.includes\<close>: the argument occurs somewhere as a run of characters.\<close>

fun includesStr :: "string \<Rightarrow> string \<Rightarrow> bool" where
  "includesStr [] sub = (sub = [])"
| "includesStr (c # cs) sub = (take (length sub) (c # cs) = sub \<or> includesStr cs sub)"

definition isRateLimited :: "string \<Rightarrow> bool" where
  "isRateLimited message =
     (includesStr message ''429'' \<or> includesStr message ''rate'' \<or> includesStr message ''limit'')"

definition retryDelayFor :: "QueueConfig \<Rightarrow> nat \<Rightarrow> string \<Rightarrow> nat" where
  "retryDelayFor c a message =
     (if isRateLimited message then retryDelay c * a * 2 else retryDelay c * a)"

subsection \<open>updatePositions\<close>

definition updatePositions :: "('t, 'r) QueueJob list \<Rightarrow> ('t, 'r) QueueJob list" where
  "updatePositions q = map (\<lambda>(index, job). job\<lparr>position := index + 1\<rparr>) (enumerate 0 q)"

subsection \<open>The parts of executeJob\<close>

text \<open>Lines 136 to 139: the processor is called, the timer of \<open>withTimeout\<close> is armed, and
  the call is suspended at the \<open>await\<close>.\<close>

definition callProcessor ::
  "('t, 'r) QueueJob \<Rightarrow> nat \<Rightarrow> string option \<Rightarrow> ('t, 'r) QueueManager \<Rightarrow> ('t, 'r) QueueManager" where
  "callProcessor job a le m =
     m\<lparr>effects := effects m @
          [CallProcessor (jobId job) a, SetTimeout (jobId job) (jobTimeout (config m))],
       suspended := suspended m @
          [\<lparr>fjob = job, attempt = a, lastError = le, awaiting = AwaitAttempt\<rparr>]\<rparr>"

text \<open>Lines 142 to 150, the success path up to \<open>job.resolve(result)\<close>.\<close>

definition completeJob ::
  "nat \<Rightarrow> ('t, 'r) QueueJob \<Rightarrow> 'r \<Rightarrow> ('t, 'r) QueueManager \<Rightarrow> ('t, 'r) QueueManager" where
  "completeJob now job r m =
     m\<lparr>processing := AList.delete (jobId job) (processing m),
       effects := effects m @ [Emit (jobCompleted (jobId job) r), Resolve (jobId job) r],
       terminal := terminal m @
          [job\<lparr>status := Completed, completedAt := Some now, result := Some r\<rparr>]\<rparr>"

text \<open>Line 180: \<open>lastError?.message || "..."\<close>; the empty message is falsy.\<close>

definition errorText :: "string option \<Rightarrow> string" where
  "errorText le =
     (case le of None \<Rightarrow> unknownErrorMessage
      | Some msg \<Rightarrow> if msg = [] then unknownErrorMessage else msg)"

text \<open>Line 186: \<open>lastError || new Error("...")\<close>, by the message of the error.\<close>

definition rejectionOf :: "string option \<Rightarrow> string" where
  "rejectionOf le = (case le of None \<Rightarrow> processingFailedMessage | Some msg \<Rightarrow> msg)"

text \<open>Lines 178 to 186, the failure path up to \<open>job.reject(...)\<close>.\<close>

definition failJob ::
  "nat \<Rightarrow> ('t, 'r) QueueJob \<Rightarrow> string option \<Rightarrow> ('t, 'r) QueueManager \<Rightarrow> ('t, 'r) QueueManager" where
  "failJob now job le m =
     m\<lparr>processing := AList.delete (jobId job) (processing m),
       effects := effects m @
          [Emit (jobFailed (jobId job) (errorText le)), Reject (jobId job) (rejectionOf le)],
       terminal := terminal m @
          [job\<lparr>status := Failed, completedAt := Some now, error := Some (errorText le)\<rparr>]\<rparr>"

text \<open>
  \<open>executeJob(job)\<close> as the dispatch loop calls it (line 121), up to its first \<open>await\<close>.
  With no attempt allowed the \<open>for\<close> loop is skipped and the failure path runs at once; its
  \<open>this.processNext()\<close> of line 189 returns at line 102, \<open>isProcessing\<close> being set inside the
  loop (lemma \<open>executeJob_in_loop\<close>).
\<close>

definition executeJob_inLoop ::
  "nat \<Rightarrow> ('t, 'r) QueueJob \<Rightarrow> ('t, 'r) QueueManager \<Rightarrow> ('t, 'r) QueueManager" where
  "executeJob_inLoop now job m =
     (if 1 \<le> retryAttempts (config m) then callProcessor job 1 None m
      else failJob now job None m)"

subsection \<open>processNext\<close>

text \<open>Lines 107 to 121, one turn of the \<open>while\<close> loop for the head \<open>job\<close> and the rest of the
  queue.\<close>

definition dispatch ::
  "nat \<Rightarrow> ('t, 'r) QueueJob \<Rightarrow> ('t, 'r) QueueJob list \<Rightarrow> ('t, 'r) QueueManager
     \<Rightarrow> ('t, 'r) QueueManager" where
  "dispatch now job rest m =
     (let m1 = m\<lparr>queue := updatePositions rest\<rparr>;
          job' = job\<lparr>status := Processing, startedAt := Some now\<rparr>;
          m2 = m1\<lparr>processing := AList.update (jobId job') job' (processing m1)\<rparr>;
          m3 = m2\<lparr>effects := effects m2 @
                  [Emit (jobStarted (jobId job') (length (processing m2)))]\<rparr>
      in executeJob_inLoop now job' m3)"

function processNext_loop :: "nat \<Rightarrow> ('t, 'r) QueueManager \<Rightarrow> ('t, 'r) QueueManager" where
  "processNext_loop now m =
     (if queue m \<noteq> [] \<and> real (length (processing m)) < maxConcurrent (config m) then
        (case queue m of
           [] \<Rightarrow> m
         | job # rest \<Rightarrow> processNext_loop now (dispatch now job rest m))
      else m)"
  by pat_completeness auto
termination
  by (relation "measure (\<lambda>(now, m). length (queue m))")
    (auto simp: dispatch_def Let_def executeJob_inLoop_def callProcessor_def failJob_def
      updatePositions_def)

declare processNext_loop.simps [simp del]

definition processNext :: "nat \<Rightarrow> ('t, 'r) QueueManager \<Rightarrow> ('t, 'r) QueueManager" where
  "processNext now m =
     (if isProcessing m then m
      else (processNext_loop now (m\<lparr>isProcessing := True\<rparr>))\<lparr>isProcessing := False\<rparr>)"

subsection \<open>enqueue\<close>

definition enqueue ::
  "nat \<Rightarrow> 't \<Rightarrow> ('t, 'r) QueueManager \<Rightarrow> (enqueue_error + job_id) \<times> ('t, 'r) QueueManager" where
  "enqueue now d m =
     (if maxQueueSize (config m) \<le> length (queue m) then (Inl QueueFull, m)
      else
        (let c = jobCounter m + 1;
             job = \<lparr>jobId = (now, c), data = d, status = Queued,
                    position = length (queue m) + 1, createdAt = now, startedAt = None,
                    completedAt = None, result = None, error = None\<rparr>;
             m1 = m\<lparr>jobCounter := c, queue := queue m @ [job]\<rparr>;
             m2 = m1\<lparr>effects := effects m1 @
                     [Emit (jobAdded (jobId job) (position job) (length (queue m1)))]\<rparr>
         in (Inr (jobId job), processNext now m2)))"

subsection \<open>executeJob after its awaits\<close>

text \<open>The head of the \<open>for\<close> loop at attempt \<open>a\<close> (line 133), outside the dispatch loop.\<close>

definition executeJob_from ::
  "nat \<Rightarrow> ('t, 'r) QueueJob \<Rightarrow> nat \<Rightarrow> string option \<Rightarrow> ('t, 'r) QueueManager
     \<Rightarrow> ('t, 'r) QueueManager" where
  "executeJob_from now job a le m =
     (if a \<le> retryAttempts (config m) then callProcessor job a le m
      else processNext now (failJob now job le m))"

definition executeJob ::
  "nat \<Rightarrow> ('t, 'r) QueueJob \<Rightarrow> ('t, 'r) QueueManager \<Rightarrow> ('t, 'r) QueueManager" where
  "executeJob now job m = executeJob_from now job 1 None m"

text \<open>Line 172: the timer of \<open>sleep\<close> is armed and the call is suspended.\<close>

definition sleep ::
  "('t, 'r) QueueJob \<Rightarrow> nat \<Rightarrow> string \<Rightarrow> nat \<Rightarrow> ('t, 'r) QueueManager \<Rightarrow> ('t, 'r) QueueManager" where
  "sleep job a msg ms m =
     m\<lparr>effects := effects m @ [Sleep (jobId job) ms],
       suspended := suspended m @
          [\<lparr>fjob = job, attempt = a, lastError = Some msg, awaiting = AwaitSleep\<rparr>]\<rparr>"

text \<open>The frame \<open>f\<close> resumes after \<open>await this.withTimeout(...)\<close>: lines 141 to 154 when the
  race is won by a result, lines 156 to 174 otherwise.\<close>

definition attemptSettled ::
  "nat \<Rightarrow> ('t, 'r) frame \<Rightarrow> 'r race \<Rightarrow> ('t, 'r) QueueManager \<Rightarrow> ('t, 'r) QueueManager" where
  "attemptSettled now f x m0 =
     (let m = m0\<lparr>suspended := remove1 f (suspended m0)\<rparr> in
      case withTimeout x of
        Fulfilled r \<Rightarrow> processNext now (completeJob now (fjob f) r m)
      | Rejected msg \<Rightarrow>
          if attempt f < retryAttempts (config m)
          then sleep (fjob f) (attempt f) msg (retryDelayFor (config m) (attempt f) msg) m
          else executeJob_from now (fjob f) (attempt f + 1) (Some msg) m)"

text \<open>The frame \<open>f\<close> resumes after \<open>await this.sleep(delay)\<close>: \<open>attempt++\<close> and the loop head.\<close>

definition sleepOver ::
  "nat \<Rightarrow> ('t, 'r) frame \<Rightarrow> ('t, 'r) QueueManager \<Rightarrow> ('t, 'r) QueueManager" where
  "sleepOver now f m0 =
     (let m = m0\<lparr>suspended := remove1 f (suspended m0)\<rparr> in
      executeJob_from now (fjob f) (attempt f + 1) (lastError f) m)"

subsection \<open>Reachable states\<close>

inductive reachable :: "('t, 'r) QueueManager \<Rightarrow> bool" where
  r_new: "reachable (newQueueManager p)"
| r_enqueue: "reachable m \<Longrightarrow> reachable (snd (enqueue now d m))"
| r_settled: "reachable m \<Longrightarrow> f \<in> set (suspended m) \<Longrightarrow> awaiting f = AwaitAttempt
              \<Longrightarrow> reachable (attemptSettled now f x m)"
| r_woken: "reachable m \<Longrightarrow> f \<in> set (suspended m) \<Longrightarrow> awaiting f = AwaitSleep
              \<Longrightarrow> reachable (sleepOver now f m)"

section \<open>Notions used by the properties\<close>

text \<open>
  The guard of the dispatch loop compares the size of the active set, a whole number, with
  \<open>maxConcurrent\<close>, any number. It lets \<open>slots\<close> jobs into the active set: the least
  whole number that is not below \<open>maxConcurrent\<close>, and none when \<open>maxConcurrent\<close> is
  negative. For a ceiling that is a whole number, \<open>slots\<close> is the ceiling.
\<close>

definition slots :: "QueueConfig \<Rightarrow> nat" where
  "slots c = nat \<lceil>maxConcurrent c\<rceil>"

text \<open>The bound of the active set.\<close>

definition withinCeiling :: "('t, 'r) QueueManager \<Rightarrow> bool" where
  "withinCeiling m = (length (processing m) \<le> slots (config m))"

text \<open>
  Scenario B of the specification: ceiling 1, at most one waiting job; job A is submitted and
  starts, job B is submitted and waits.
\<close>

definition scenarioB_config :: PartialQueueConfig where
  "scenarioB_config =
     \<lparr>maxConcurrent_opt = Some 1, maxQueueSize_opt = Some 1, jobTimeout_opt = None,
      retryAttempts_opt = None, retryDelay_opt = None\<rparr>"

definition scenarioB :: "(string, nat) QueueManager" where
  "scenarioB =
     snd (enqueue 11 ''B'' (snd (enqueue 10 ''A'' (newQueueManager scenarioB_config))))"

text \<open>The manager right after \<open>enqueue\<close> has pushed the new job and emitted \<open>jobAdded\<close>
  (lines 74 to 88), before it calls \<open>processNext\<close>.\<close>

definition admitted :: "nat \<Rightarrow> 't \<Rightarrow> ('t, 'r) QueueManager \<Rightarrow> ('t, 'r) QueueManager" where
  "admitted now d m =
     m\<lparr>jobCounter := jobCounter m + 1,
       queue := queue m @
         [\<lparr>jobId = (now, jobCounter m + 1), data = d, status = Queued,
           position = length (queue m) + 1, createdAt = now, startedAt = None,
           completedAt = None, result = None, error = None\<rparr>],
       effects := effects m @
         [Emit (jobAdded (now, jobCounter m + 1) (length (queue m) + 1) (length (queue m) + 1))]\<rparr>"

text \<open>The manager once the runtime has taken the frame \<open>f\<close> up again.\<close>

definition unframed :: "('t, 'r) frame \<Rightarrow> ('t, 'r) QueueManager \<Rightarrow> ('t, 'r) QueueManager" where
  "unframed f m = m\<lparr>suspended := remove1 f (suspended m)\<rparr>"

text \<open>Positions count from 1 at the head, one more per entry.\<close>

definition positionsInOrder :: "('t, 'r) QueueJob list \<Rightarrow> bool" where
  "positionsInOrder q = (map position q = [1..<length q + 1])"

text \<open>
  Scenario A of the specification: ceiling 2, at most ten waiting jobs, five submissions.
\<close>

definition scenarioA_config :: PartialQueueConfig where
  "scenarioA_config =
     \<lparr>maxConcurrent_opt = Some 2, maxQueueSize_opt = Some 10, jobTimeout_opt = None,
      retryAttempts_opt = None, retryDelay_opt = None\<rparr>"

definition scenarioA :: "(string, nat) QueueManager" where
  "scenarioA =
     snd (enqueue 24 ''e'' (snd (enqueue 23 ''d'' (snd (enqueue 22 ''c''
       (snd (enqueue 21 ''b'' (snd (enqueue 20 ''a'' (newQueueManager scenarioA_config))))))))))"

text \<open>The specification's notion of a substring: \<open>sub\<close> occurs in \<open>s\<close> as a run of
  consecutive characters. Lemma \<open>includesStr_iff\<close> compares it with \<open>includesStr\<close>.\<close>

definition occursIn :: "string \<Rightarrow> string \<Rightarrow> bool" where
  "occursIn sub s = (\<exists>ps ss. s = ps @ sub @ ss)"

text \<open>The letters A to Z and a to z in the other case; every other character is kept.\<close>

definition upperChar :: "char \<Rightarrow> char" where
  "upperChar c =
     (case map_of (zip ''abcdefghijklmnopqrstuvwxyz'' ''ABCDEFGHIJKLMNOPQRSTUVWXYZ'') c of
        None \<Rightarrow> c | Some u \<Rightarrow> u)"

definition lowerChar :: "char \<Rightarrow> char" where
  "lowerChar c =
     (case map_of (zip ''ABCDEFGHIJKLMNOPQRSTUVWXYZ'' ''abcdefghijklmnopqrstuvwxyz'') c of
        None \<Rightarrow> c | Some l \<Rightarrow> l)"

text \<open>The suspended call of \<open>executeJob\<close> for job A of scenario B.\<close>

definition scenarioB_frame :: "(string, nat) frame" where
  "scenarioB_frame = hd (suspended scenarioB)"

text \<open>
  The jobs whose completion channel has been settled, in the order of the calls of \<open>resolve\<close>
  and \<open>reject\<close>, and the jobs that \<open>enqueue\<close> has admitted, in the order of their
  \<open>jobAdded\<close> events.
\<close>

fun settledId :: "'r effect \<Rightarrow> job_id list" where
  "settledId (Resolve j r) = [j]"
| "settledId (Reject j e) = [j]"
| "settledId other = []"

definition settledIds :: "'r effect list \<Rightarrow> job_id list" where
  "settledIds es = concat (map settledId es)"

fun admittedId :: "'r effect \<Rightarrow> job_id list" where
  "admittedId (Emit (jobAdded j p n)) = [j]"
| "admittedId other = []"

definition admittedIds :: "'r effect list \<Rightarrow> job_id list" where
  "admittedIds es = concat (map admittedId es)"

text \<open>The jobs that wait or run; with the finished ones, all jobs of the manager; and the jobs
  of the suspended calls of \<open>executeJob\<close>.\<close>

definition liveIds :: "('t, 'r) QueueManager \<Rightarrow> job_id list" where
  "liveIds m = map jobId (queue m) @ map fst (processing m)"

definition allIds :: "('t, 'r) QueueManager \<Rightarrow> job_id list" where
  "allIds m = liveIds m @ map jobId (terminal m)"

definition frameIds :: "('t, 'r) QueueManager \<Rightarrow> job_id list" where
  "frameIds m = map (\<lambda>f. jobId (fjob f)) (suspended m)"

text \<open>A suspended call is inside the \<open>for\<close> loop: its attempt is within the budget, and a call
  that sleeps has a retry left.\<close>

definition frameOk :: "QueueConfig \<Rightarrow> ('t, 'r) frame \<Rightarrow> bool" where
  "frameOk c f =
     (1 \<le> attempt f \<and>
      (case awaiting f of
         AwaitAttempt \<Rightarrow> attempt f \<le> retryAttempts c
       | AwaitSleep \<Rightarrow> attempt f < retryAttempts c))"

text \<open>
  What holds of the manager whenever the event loop is idle: no job is in two places, the
  active jobs are those with a suspended call (one each), the counter bounds the ids given
  out, the settled jobs are the finished ones, the admitted jobs are all jobs, and every
  suspended call is inside its loop.
\<close>

definition wellFormed :: "('t, 'r) QueueManager \<Rightarrow> bool" where
  "wellFormed m =
     (distinct (allIds m)
      \<and> distinct (frameIds m) \<and> set (frameIds m) = set (map fst (processing m))
      \<and> list_all (\<lambda>j. snd j \<le> jobCounter m) (allIds m)
      \<and> settledIds (effects m) = map jobId (terminal m)
      \<and> set (admittedIds (effects m)) = set (allIds m)
      \<and> list_all (frameOk (config m)) (suspended m))"


text \<open>
  The run of one call of \<open>executeJob\<close>, from the call to its return: \<open>runJob\<close> calls
  \<open>executeJob\<close> for the job and then resumes the job's suspended call once for each
  outcome of the list, an attempt with its outcome (\<open>attemptSettled\<close>) and the delay that
  follows it (\<open>wake\<close>), until the call has returned or the outcomes are used up. The steps of
  other jobs that the event loop may run in between touch neither this call's frame nor its
  entry of the active set.
\<close>

definition frameOf :: "job_id \<Rightarrow> ('t, 'r) QueueManager \<Rightarrow> ('t, 'r) frame option" where
  "frameOf j m = find (\<lambda>f. jobId (fjob f) = j) (suspended m)"

definition wake :: "nat \<Rightarrow> job_id \<Rightarrow> ('t, 'r) QueueManager \<Rightarrow> ('t, 'r) QueueManager" where
  "wake now j m =
     (case frameOf j m of
        None \<Rightarrow> m
      | Some f \<Rightarrow> (case awaiting f of AwaitSleep \<Rightarrow> sleepOver now f m | AwaitAttempt \<Rightarrow> m))"

fun drive :: "nat \<Rightarrow> job_id \<Rightarrow> 'r race list \<Rightarrow> ('t, 'r) QueueManager \<Rightarrow> ('t, 'r) QueueManager" where
  "drive now j [] m = m"
| "drive now j (x # xs) m =
     (case frameOf j m of
        None \<Rightarrow> m
      | Some f \<Rightarrow>
          (case awaiting f of
             AwaitSleep \<Rightarrow> m
           | AwaitAttempt \<Rightarrow> drive now j xs (wake now j (attemptSettled now f x m))))"

definition runJob ::
  "nat \<Rightarrow> ('t, 'r) QueueJob \<Rightarrow> 'r race list \<Rightarrow> ('t, 'r) QueueManager \<Rightarrow> ('t, 'r) QueueManager" where
  "runJob now job xs m = drive now (jobId job) xs (executeJob now job m)"

text \<open>The effects of the attempts \<open>a\<close>, \<open>a + 1\<close>, ... of job \<open>j\<close> that fail with the given
  messages and are retried.\<close>

fun retries :: "QueueConfig \<Rightarrow> job_id \<Rightarrow> nat \<Rightarrow> string list \<Rightarrow> 'r effect list" where
  "retries c j a [] = []"
| "retries c j a (msg # msgs) =
     [CallProcessor j a, SetTimeout j (jobTimeout c), Sleep j (retryDelayFor c a msg)]
       @ retries c j (Suc a) msgs"

text \<open>What an observer of one kind sees of the effects: the processor calls with their attempt
  numbers, the delays slept, the events emitted, the settlements of completion channels.\<close>

fun callOf :: "'r effect \<Rightarrow> (job_id \<times> nat) list" where
  "callOf (CallProcessor j a) = [(j, a)]"
| "callOf other = []"

definition callsOf :: "'r effect list \<Rightarrow> (job_id \<times> nat) list" where
  "callsOf es = concat (map callOf es)"

fun sleepOf :: "'r effect \<Rightarrow> nat list" where
  "sleepOf (Sleep j ms) = [ms]"
| "sleepOf other = []"

definition sleepsOf :: "'r effect list \<Rightarrow> nat list" where
  "sleepsOf es = concat (map sleepOf es)"

fun eventOf :: "'r effect \<Rightarrow> 'r event list" where
  "eventOf (Emit e) = [e]"
| "eventOf other = []"

definition eventsOf :: "'r effect list \<Rightarrow> 'r event list" where
  "eventsOf es = concat (map eventOf es)"

fun settlementOf :: "'r effect \<Rightarrow> 'r effect list" where
  "settlementOf (Resolve j r) = [Resolve j r]"
| "settlementOf (Reject j e) = [Reject j e]"
| "settlementOf other = []"

definition settlementsOf :: "'r effect list \<Rightarrow> 'r effect list" where
  "settlementsOf es = concat (map settlementOf es)"




text \<open>
  What the event loop does to a manager, one action at a time: a submission, the end of the
  attempt that the call of a job awaits, with its outcome, or the end of the delay that it
  awaits. An action for a job whose call does not await that is without effect. \<open>run\<close>
  performs a list of actions, in any interleaving of jobs that the list gives.
\<close>

datatype ('t, 'r) action = Submit nat 't | Settle nat job_id "'r race" | Wake nat job_id

fun act :: "('t, 'r) action \<Rightarrow> ('t, 'r) QueueManager \<Rightarrow> ('t, 'r) QueueManager" where
  "act (Submit now d) m = snd (enqueue now d m)"
| "act (Settle now i x) m =
     (case frameOf i m of
        None \<Rightarrow> m
      | Some f \<Rightarrow> (case awaiting f of AwaitAttempt \<Rightarrow> attemptSettled now f x m | AwaitSleep \<Rightarrow> m))"
| "act (Wake now i) m = wake now i m"

fun run :: "('t, 'r) action list \<Rightarrow> ('t, 'r) QueueManager \<Rightarrow> ('t, 'r) QueueManager" where
  "run [] m = m"
| "run (a # as) m = run as (act a m)"




text \<open>
  A dispatch pass as a whole. \<open>claimed\<close> is the record of a job taken from the head of the
  queue (its position is 1 there), \<open>dispatchEffects\<close> are the effects of the turns of the loop
  for the jobs \<open>js\<close> when \<open>n\<close> jobs are active, \<open>dispatched now k m\<close> is the manager after
  \<open>k\<close> turns, each with at least one attempt allowed, and \<open>drained now m\<close> the manager after
  a pass with no attempt allowed, where every turn ends in the failure path at once.
\<close>

definition claimed :: "nat \<Rightarrow> ('t, 'r) QueueJob \<Rightarrow> ('t, 'r) QueueJob" where
  "claimed now job = job\<lparr>position := 1, status := Processing, startedAt := Some now\<rparr>"

fun dispatchEffects :: "QueueConfig \<Rightarrow> nat \<Rightarrow> job_id list \<Rightarrow> 'r effect list" where
  "dispatchEffects c n [] = []"
| "dispatchEffects c n (j # js) =
     [Emit (jobStarted j (Suc n)), CallProcessor j 1, SetTimeout j (jobTimeout c)]
       @ dispatchEffects c (Suc n) js"

definition dispatchCount :: "('t, 'r) QueueManager \<Rightarrow> nat" where
  "dispatchCount m = min (length (queue m)) (slots (config m) - length (processing m))"

definition dispatched :: "nat \<Rightarrow> nat \<Rightarrow> ('t, 'r) QueueManager \<Rightarrow> ('t, 'r) QueueManager" where
  "dispatched now k m =
     m\<lparr>queue := updatePositions (drop k (queue m)),
       processing := processing m @ map (\<lambda>job. (jobId job, claimed now job)) (take k (queue m)),
       effects := effects m @
          dispatchEffects (config m) (length (processing m)) (map jobId (take k (queue m))),
       suspended := suspended m @
          map (\<lambda>job. \<lparr>fjob = claimed now job, attempt = 1, lastError = None,
                       awaiting = AwaitAttempt\<rparr>) (take k (queue m))\<rparr>"

definition drained :: "nat \<Rightarrow> ('t, 'r) QueueManager \<Rightarrow> ('t, 'r) QueueManager" where
  "drained now m =
     m\<lparr>queue := [],
       effects := effects m @
          concat (map (\<lambda>j. [Emit (jobStarted j (Suc (length (processing m)))),
                            Emit (jobFailed j unknownErrorMessage),
                            Reject j processingFailedMessage]) (map jobId (queue m))),
       terminal := terminal m @
          map (\<lambda>job. (claimed now job)\<lparr>status := Failed, completedAt := Some now,
                        error := Some unknownErrorMessage\<rparr>) (queue m)\<rparr>"

text \<open>
  Scenario A goes on: at time 30 the first attempt of job a has returned 7, and lines 142 to
  150 have run; \<open>scenarioA_done\<close> is the manager at the call of \<open>processNext\<close> in line 153.
  That pass takes job c from the queue; \<open>dispatchingC\<close> is the manager at its call of
  \<open>executeJob\<close> for job c (line 121, with the record \<open>jobC\<close>), taken with the flag of the
  pass cleared, as it is when the call resumes.
\<close>

definition scenarioA_done :: "(string, nat) QueueManager" where
  "scenarioA_done =
     completeJob 30 (fjob (hd (suspended scenarioA))) 7
       (unframed (hd (suspended scenarioA)) scenarioA)"

definition jobC :: "(string, nat) QueueJob" where
  "jobC = (hd (queue scenarioA_done))\<lparr>status := Processing, startedAt := Some 30\<rparr>"

definition dispatchingC :: "(string, nat) QueueManager" where
  "dispatchingC =
     scenarioA_done
       \<lparr>queue := updatePositions (tl (queue scenarioA_done)),
        processing := AList.update (jobId jobC) jobC (processing scenarioA_done),
        effects := effects scenarioA_done @ [Emit (jobStarted (jobId jobC) 2)]\<rparr>"

text \<open>
  A manager that allows one attempt, whose only job fails with an error of the empty message,
  and a manager that allows no attempt, after one submission.
\<close>

definition scenarioOneAttempt_config :: PartialQueueConfig where
  "scenarioOneAttempt_config =
     \<lparr>maxConcurrent_opt = None, maxQueueSize_opt = None, jobTimeout_opt = None,
      retryAttempts_opt = Some 1, retryDelay_opt = None\<rparr>"

definition scenarioOneAttempt :: "(string, nat) QueueManager" where
  "scenarioOneAttempt = snd (enqueue 1 ''A'' (newQueueManager scenarioOneAttempt_config))"

definition scenarioEmptyMessage :: "(string, nat) QueueManager" where
  "scenarioEmptyMessage =
     attemptSettled 2 (hd (suspended scenarioOneAttempt)) (ProcessorFirst (Rejected []))
       scenarioOneAttempt"

definition scenarioNoAttempts_config :: PartialQueueConfig where
  "scenarioNoAttempts_config =
     \<lparr>maxConcurrent_opt = None, maxQueueSize_opt = None, jobTimeout_opt = None,
      retryAttempts_opt = Some 0, retryDelay_opt = None\<rparr>"

definition scenarioNoAttempts :: "(string, nat) QueueManager" where
  "scenarioNoAttempts = snd (enqueue 1 ''A'' (newQueueManager scenarioNoAttempts_config))"

text \<open>A manager with the concurrency ceiling 1.5 and two submissions to it, and a new manager
  with the ceiling -1.\<close>

definition scenarioFraction_config :: PartialQueueConfig where
  "scenarioFraction_config =
     \<lparr>maxConcurrent_opt = Some (3 / 2), maxQueueSize_opt = None, jobTimeout_opt = None,
      retryAttempts_opt = None, retryDelay_opt = None\<rparr>"

definition scenarioFraction :: "(string, nat) QueueManager" where
  "scenarioFraction =
     snd (enqueue 2 ''B'' (snd (enqueue 1 ''A'' (newQueueManager scenarioFraction_config))))"

definition scenarioNegative_config :: PartialQueueConfig where
  "scenarioNegative_config =
     \<lparr>maxConcurrent_opt = Some (- 1), maxQueueSize_opt = None, jobTimeout_opt = None,
      retryAttempts_opt = None, retryDelay_opt = None\<rparr>"

definition scenarioNegative :: "(string, nat) QueueManager" where
  "scenarioNegative = newQueueManager scenarioNegative_config"




section \<open>Unfolding the model\<close>

lemmas eval_defs =
  enqueue_def newQueueManager_def mergeConfig_def DEFAULT_CONFIG_def processNext_def
  processNext_loop.simps dispatch_def Let_def executeJob_inLoop_def callProcessor_def
  updatePositions_def failJob_def completeJob_def sleep_def attemptSettled_def sleepOver_def
  executeJob_from_def executeJob_def withTimeout_def slots_def

lemma executeJob_in_loop:
  "isProcessing m \<Longrightarrow> executeJob now job m = executeJob_inLoop now job m"
  by (simp add: executeJob_def executeJob_from_def executeJob_inLoop_def processNext_def
      failJob_def)

lemma scenarioB_reachable: "reachable scenarioB"
  unfolding scenarioB_def by (intro reachable.intros)

lemma queue_dispatch [simp]: "queue (dispatch now job rest m) = updatePositions rest"
  by (simp add: dispatch_def Let_def executeJob_inLoop_def callProcessor_def failJob_def)

lemma config_dispatch [simp]: "config (dispatch now job rest m) = config m"
  by (simp add: dispatch_def Let_def executeJob_inLoop_def callProcessor_def failJob_def)

lemma length_updatePositions [simp]: "length (updatePositions q) = length q"
  by (simp add: updatePositions_def)

lemma length_alist_update: "length (AList.update k v al) \<le> Suc (length al)"
  by (induction al) auto

lemma length_alist_delete: "length (AList.delete k al) \<le> length al"
  by (simp add: AList.delete_eq)

lemma guard_slots: "real n < maxConcurrent c \<longleftrightarrow> n < slots c"
  by (simp add: slots_def zless_nat_eq_int_zless less_ceiling_iff)

lemma slots_whole: "maxConcurrent c = real n \<Longrightarrow> slots c = n"
  by (simp add: slots_def)

lemma processNext_loop_stop:
  "queue m = [] \<or> \<not> length (processing m) < slots (config m)
     \<Longrightarrow> processNext_loop now m = m"
  by (subst processNext_loop.simps) (cases "queue m", simp_all add: guard_slots)

lemma processNext_loop_step:
  "queue m = job # rest \<Longrightarrow> length (processing m) < slots (config m)
     \<Longrightarrow> processNext_loop now m = processNext_loop now (dispatch now job rest m)"
  by (subst processNext_loop.simps) (simp add: guard_slots)

text \<open>What every turn of the loop keeps, the loop keeps.\<close>

lemma processNext_loop_rule:
  assumes "P m"
    and "\<And>job rest m'. P m' \<Longrightarrow> queue m' = job # rest
           \<Longrightarrow> length (processing m') < slots (config m')
           \<Longrightarrow> P (dispatch now job rest m')"
  shows "P (processNext_loop now m)"
  using assms
proof (induction now m rule: processNext_loop.induct)
  case (1 now m)
  note turn = "1.prems"(2)
  show ?case
  proof (cases "queue m \<noteq> [] \<and> length (processing m) < slots (config m)")
    case False
    then have "processNext_loop now m = m"
      by (intro processNext_loop_stop) simp
    then show ?thesis using "1.prems"(1) by simp
  next
    case True
    then obtain job rest where q: "queue m = job # rest" by (cases "queue m") auto
    have lt: "length (processing m) < slots (config m)" using True by simp
    have g: "queue m \<noteq> [] \<and> real (length (processing m)) < maxConcurrent (config m)"
      using True by (simp add: guard_slots)
    have d: "P (dispatch now job rest m)" by (rule turn [OF "1.prems"(1) q lt])
    have "P (processNext_loop now (dispatch now job rest m))"
      by (rule "1.IH" [OF g q d turn])
    then show ?thesis by (simp add: processNext_loop_step [OF q lt])
  qed
qed

lemma enqueue_admitted:
  "length (queue m) < maxQueueSize (config m)
     \<Longrightarrow> enqueue now d m = (Inr (now, jobCounter m + 1), processNext now (admitted now d m))"
  by (simp add: enqueue_def admitted_def Let_def)

text \<open>The same for \<open>processNext\<close>, and for every reachable state: a property that each
  elementary change keeps holds in all of them.\<close>

lemma processNext_rule:
  assumes "P m"
    and "\<And>m' b. P m' \<Longrightarrow> P (m'\<lparr>isProcessing := b\<rparr>)"
    and "\<And>job rest m'. P m' \<Longrightarrow> queue m' = job # rest
           \<Longrightarrow> length (processing m') < slots (config m')
           \<Longrightarrow> P (dispatch now job rest m')"
  shows "P (processNext now m)"
proof (cases "isProcessing m")
  case True
  then show ?thesis using assms(1) by (simp add: processNext_def)
next
  case False
  have "P (m\<lparr>isProcessing := True\<rparr>)" by (rule assms(2) [OF assms(1)])
  then have "P (processNext_loop now (m\<lparr>isProcessing := True\<rparr>))"
    by (rule processNext_loop_rule [where P = P]) (rule assms(3))
  then have "P ((processNext_loop now (m\<lparr>isProcessing := True\<rparr>))\<lparr>isProcessing := False\<rparr>)"
    by (rule assms(2))
  then show ?thesis using False by (simp add: processNext_def)
qed

lemma reachable_rule [consumes 1, case_names new admit flag dispatch complete fail sleep call]:
  assumes "reachable m"
    and new: "\<And>p. P (newQueueManager p)"
    and admit: "\<And>m now d. P m \<Longrightarrow> length (queue m) < maxQueueSize (config m)
           \<Longrightarrow> P (admitted now d m)"
    and flag: "\<And>m b. P m \<Longrightarrow> P (m\<lparr>isProcessing := b\<rparr>)"
    and dispatch: "\<And>m now job rest. P m \<Longrightarrow> queue m = job # rest
           \<Longrightarrow> length (processing m) < slots (config m)
           \<Longrightarrow> P (dispatch now job rest m)"
    and complete: "\<And>m f now r. P m \<Longrightarrow> f \<in> set (suspended m) \<Longrightarrow> awaiting f = AwaitAttempt
           \<Longrightarrow> P (completeJob now (fjob f) r (unframed f m))"
    and fail: "\<And>m f now le. P m \<Longrightarrow> f \<in> set (suspended m)
           \<Longrightarrow> retryAttempts (config m) \<le> attempt f
           \<Longrightarrow> P (failJob now (fjob f) le (unframed f m))"
    and sleep: "\<And>m f msg ms. P m \<Longrightarrow> f \<in> set (suspended m) \<Longrightarrow> awaiting f = AwaitAttempt
           \<Longrightarrow> attempt f < retryAttempts (config m)
           \<Longrightarrow> P (sleep (fjob f) (attempt f) msg ms (unframed f m))"
    and call: "\<And>m f. P m \<Longrightarrow> f \<in> set (suspended m) \<Longrightarrow> awaiting f = AwaitSleep
           \<Longrightarrow> attempt f < retryAttempts (config m)
           \<Longrightarrow> P (callProcessor (fjob f) (attempt f + 1) (lastError f) (unframed f m))"
  shows "P m"
  using assms(1)
proof (induction rule: reachable.induct)
  case (r_new p)
  show ?case by (rule new)
next
  case (r_enqueue m now d)
  show ?case
  proof (cases "length (queue m) < maxQueueSize (config m)")
    case True
    have "P (processNext now (admitted now d m))"
      by (rule processNext_rule [where P = P, OF admit [OF r_enqueue.IH True] flag dispatch])
    then show ?thesis by (simp add: enqueue_admitted [OF True])
  next
    case False
    then show ?thesis using r_enqueue.IH by (simp add: enqueue_def)
  qed
next
  case (r_settled m f now x)
  note in_m = r_settled.IH r_settled.hyps(2)
  show ?case
  proof (cases "withTimeout x")
    case (Fulfilled r)
    have "P (processNext now (completeJob now (fjob f) r (unframed f m)))"
      by (rule processNext_rule [where P = P,
            OF complete [OF in_m r_settled.hyps(3)] flag dispatch])
    then show ?thesis using Fulfilled by (simp add: attemptSettled_def unframed_def Let_def)
  next
    case (Rejected msg)
    show ?thesis
    proof (cases "attempt f < retryAttempts (config m)")
      case True
      then show ?thesis
        using Rejected sleep [OF in_m r_settled.hyps(3) True]
        by (simp add: attemptSettled_def unframed_def Let_def)
    next
      case False
      then have le: "retryAttempts (config m) \<le> attempt f" by simp
      have "P (processNext now (failJob now (fjob f) (Some msg) (unframed f m)))"
        by (rule processNext_rule [where P = P, OF fail [OF in_m le] flag dispatch])
      then show ?thesis
        using Rejected False
        by (simp add: attemptSettled_def unframed_def Let_def executeJob_from_def)
    qed
  qed
next
  case (r_woken m f now)
  note in_m = r_woken.IH r_woken.hyps(2)
  show ?case
  proof (cases "attempt f < retryAttempts (config m)")
    case True
    then show ?thesis
      using call [OF in_m r_woken.hyps(3) True]
      by (simp add: sleepOver_def unframed_def Let_def executeJob_from_def)
  next
    case False
    then have le: "retryAttempts (config m) \<le> attempt f" by simp
    have "P (processNext now (failJob now (fjob f) (lastError f) (unframed f m)))"
      by (rule processNext_rule [where P = P, OF fail [OF in_m le] flag dispatch])
    then show ?thesis
      using False by (simp add: sleepOver_def unframed_def Let_def executeJob_from_def)
  qed
qed

section \<open>The concurrency ceiling\<close>

lemma withinCeiling_dispatch:
  "length (processing m) < slots (config m) \<Longrightarrow> withinCeiling (dispatch now job rest m)"
  using length_alist_update [of "jobId job" "job\<lparr>status := Processing, startedAt := Some now\<rparr>"
      "processing m"]
    length_alist_delete [of "jobId job"
      "AList.update (jobId job) (job\<lparr>status := Processing, startedAt := Some now\<rparr>) (processing m)"]
  by (simp add: withinCeiling_def dispatch_def Let_def executeJob_inLoop_def callProcessor_def
      failJob_def)

lemma withinCeiling_processNext_loop:
  "withinCeiling m \<Longrightarrow> withinCeiling (processNext_loop now m)"
  by (rule processNext_loop_rule) (auto intro: withinCeiling_dispatch)

lemma withinCeiling_processNext: "withinCeiling m \<Longrightarrow> withinCeiling (processNext now m)"
  using withinCeiling_processNext_loop [of "m\<lparr>isProcessing := True\<rparr>" now]
  by (simp add: processNext_def withinCeiling_def)

lemma withinCeiling_failJob: "withinCeiling m \<Longrightarrow> withinCeiling (failJob now job le m)"
  using length_alist_delete [of "jobId job" "processing m"]
  by (simp add: withinCeiling_def failJob_def)

lemma withinCeiling_completeJob: "withinCeiling m \<Longrightarrow> withinCeiling (completeJob now job r m)"
  using length_alist_delete [of "jobId job" "processing m"]
  by (simp add: withinCeiling_def completeJob_def)

lemma withinCeiling_executeJob_from:
  "withinCeiling m \<Longrightarrow> withinCeiling (executeJob_from now job a le m)"
  by (auto simp: executeJob_from_def intro: withinCeiling_processNext withinCeiling_failJob)
    (simp add: withinCeiling_def callProcessor_def)

lemma withinCeiling_suspended [simp]:
  "withinCeiling (m\<lparr>suspended := s\<rparr>) = withinCeiling m"
  by (simp add: withinCeiling_def)

lemma withinCeiling_attemptSettled:
  "withinCeiling m \<Longrightarrow> withinCeiling (attemptSettled now f x m)"
  by (auto simp: attemptSettled_def Let_def split: settlement.splits
      intro!: withinCeiling_processNext withinCeiling_completeJob withinCeiling_executeJob_from)
    (simp add: withinCeiling_def sleep_def)

lemma withinCeiling_sleepOver: "withinCeiling m \<Longrightarrow> withinCeiling (sleepOver now f m)"
  by (simp add: sleepOver_def Let_def withinCeiling_executeJob_from)

lemma withinCeiling_enqueue: "withinCeiling m \<Longrightarrow> withinCeiling (snd (enqueue now d m))"
  by (auto simp: enqueue_def Let_def intro!: withinCeiling_processNext)
    (simp add: withinCeiling_def)

lemma reachable_withinCeiling: "reachable m \<Longrightarrow> withinCeiling m"
  by (induction rule: reachable.induct)
    (simp_all add: withinCeiling_enqueue withinCeiling_attemptSettled withinCeiling_sleepOver,
     simp add: withinCeiling_def newQueueManager_def)

text \<open>
  C1, as stated, fails: the constructor takes \<open>maxConcurrent\<close> as it is given. With the
  ceiling 1.5 the guard of the loop holds for an active set of size 0 and of size 1, so two
  submissions leave two jobs in the active set, more than 1.5; and with the ceiling -1 the
  empty active set of the new manager is already above it.
\<close>

theorem active_set_exceeds_counterexample:
  "maxConcurrent (config scenarioFraction) = 3 / 2
   \<and> reachable scenarioFraction
   \<and> map fst (processing scenarioFraction) = [(1, 1), (2, 2)]
   \<and> maxConcurrent (config scenarioFraction) < real (length (processing scenarioFraction))
   \<and> maxConcurrent (config scenarioNegative) = - 1
   \<and> reachable scenarioNegative
   \<and> processing scenarioNegative = []
   \<and> maxConcurrent (config scenarioNegative) < real (length (processing scenarioNegative))"
proof -
  have r1: "reachable scenarioFraction"
    unfolding scenarioFraction_def by (intro reachable.intros)
  have r2: "reachable scenarioNegative"
    unfolding scenarioNegative_def by (intro reachable.intros)
  have v: "maxConcurrent (config scenarioFraction) = 3 / 2"
    "map fst (processing scenarioFraction) = [(1, 1), (2, 2)]"
    "maxConcurrent (config scenarioFraction) < real (length (processing scenarioFraction))"
    by (simp_all add: scenarioFraction_def scenarioFraction_config_def eval_defs)
  have w: "maxConcurrent (config scenarioNegative) = - 1"
    "processing scenarioNegative = []"
    "maxConcurrent (config scenarioNegative) < real (length (processing scenarioNegative))"
    by (simp_all add: scenarioNegative_def scenarioNegative_config_def eval_defs)
  show ?thesis by (intro conjI r1 r2 v w)
qed

text \<open>
  C1, amended. In every reachable state of a manager whose \<open>maxConcurrent\<close> is a whole
  number that is not negative (after any sequence of submissions, settled attempts and elapsed
  retry delays), the active set \<open>processing\<close> holds at most \<open>maxConcurrent\<close> jobs.
  Whatever number \<open>maxConcurrent\<close> is, the active set holds at most \<open>slots\<close> jobs.
\<close>

theorem active_set_bounded:
  assumes "reachable m"
  shows "length (processing m) \<le> slots (config m)
    \<and> (maxConcurrent (config m) \<in> \<nat> \<longrightarrow>
         real (length (processing m)) \<le> maxConcurrent (config m))"
proof (intro conjI impI)
  show le: "length (processing m) \<le> slots (config m)"
    using reachable_withinCeiling [OF assms] by (simp add: withinCeiling_def)
  assume "maxConcurrent (config m) \<in> \<nat>"
  then obtain n where n: "maxConcurrent (config m) = real n"
    by (auto elim: Nats_cases)
  then have "slots (config m) = n" by (rule slots_whole)
  then show "real (length (processing m)) \<le> maxConcurrent (config m)"
    using le n by simp
qed

theorem active_set_bounded_witness:
  "reachable scenarioB \<and> maxConcurrent (config scenarioB) \<in> \<nat>
   \<and> maxConcurrent (config scenarioB) = 1
   \<and> map fst (processing scenarioB) = [(10, 1)]
   \<and> real (length (processing scenarioB)) \<le> maxConcurrent (config scenarioB)"
proof -
  have v: "maxConcurrent (config scenarioB) = 1" "map fst (processing scenarioB) = [(10, 1)]"
    by (simp_all add: scenarioB_def scenarioB_config_def eval_defs)
  have n: "maxConcurrent (config scenarioB) \<in> \<nat>" by (simp add: v)
  have b: "real (length (processing scenarioB)) \<le> maxConcurrent (config scenarioB)"
    using active_set_bounded [OF scenarioB_reachable, THEN conjunct2] n by simp
  show ?thesis by (intro conjI scenarioB_reachable n v b)
qed

section \<open>Backpressure\<close>

text \<open>
  C3. When the queue already holds \<open>maxQueueSize\<close> jobs or more, \<open>enqueue\<close> fails with the
  capacity error and returns the manager as it was: no job record, the counter, the
  queue, the active set and everything else unchanged.
\<close>

theorem enqueue_full:
  "maxQueueSize (config m) \<le> length (queue m) \<Longrightarrow> enqueue now d m = (Inl QueueFull, m)"
  by (simp add: enqueue_def)

theorem enqueue_full_witness:
  "maxQueueSize (config scenarioB) \<le> length (queue scenarioB)
     \<and> enqueue 12 ''C'' scenarioB = (Inl QueueFull, scenarioB)"
proof -
  have h: "maxQueueSize (config scenarioB) \<le> length (queue scenarioB)"
    by (simp add: scenarioB_def scenarioB_config_def eval_defs)
  show ?thesis using h enqueue_full [OF h] by simp
qed

section \<open>Positions in the queue\<close>

lemma scenarioA_reachable: "reachable scenarioA"
  unfolding scenarioA_def by (intro reachable.intros)

lemma map_position_updatePositions: "map position (updatePositions q) = [1..<length q + 1]"
proof -
  have "map position (updatePositions q) = map (\<lambda>p. Suc (fst p)) (enumerate 0 q)"
    by (simp add: updatePositions_def case_prod_unfold comp_def)
  also have "\<dots> = map Suc (map fst (enumerate 0 q))"
    by (simp only: map_map comp_def)
  also have "\<dots> = map Suc [0..<length q]"
    by (simp only: map_fst_enumerate add_0)
  finally show ?thesis by (simp add: map_Suc_upt)
qed

lemma positionsInOrder_reachable: "reachable m \<Longrightarrow> positionsInOrder (queue m)"
proof (induction rule: reachable_rule)
  case (dispatch m now job rest)
  then show ?case by (simp add: positionsInOrder_def map_position_updatePositions)
qed (simp_all add: positionsInOrder_def newQueueManager_def admitted_def completeJob_def
    failJob_def sleep_def callProcessor_def unframed_def)

text \<open>
  C5. In every reachable state the positions of the queued jobs are 1, 2, ..., n from head to
  tail. A submission that is accepted creates its job with position (queue length before) + 1,
  reports that position in \<open>jobAdded\<close>, and leaves the positions in order, before and after
  the dispatch pass it triggers; every turn of the dispatch loop, the only other change of the
  queue, recomputes the positions of the jobs that remain.
\<close>

theorem queue_positions:
  assumes "reachable m"
  shows "map position (queue m) = [1..<length (queue m) + 1]
    \<and> (length (queue m) < maxQueueSize (config m) \<longrightarrow>
         (\<exists>job m1. enqueue now d m = (Inr (jobId job), processNext now m1)
            \<and> queue m1 = queue m @ [job] \<and> position job = length (queue m) + 1
            \<and> Emit (jobAdded (jobId job) (length (queue m) + 1) (length (queue m1)))
                 \<in> set (effects m1)
            \<and> map position (queue m1) = [1..<length (queue m1) + 1]))
    \<and> map position (queue (snd (enqueue now d m)))
         = [1..<length (queue (snd (enqueue now d m))) + 1]
    \<and> (\<forall>job rest m'. map position (queue (dispatch now job rest m')) = [1..<length rest + 1])"
proof (intro conjI impI allI)
  show inv: "map position (queue m) = [1..<length (queue m) + 1]"
    using positionsInOrder_reachable [OF assms] by (simp add: positionsInOrder_def)
  show "map position (queue (snd (enqueue now d m)))
         = [1..<length (queue (snd (enqueue now d m))) + 1]"
    using positionsInOrder_reachable [OF r_enqueue [OF assms]] by (simp add: positionsInOrder_def)
  show "map position (queue (dispatch now job rest m')) = [1..<length rest + 1]" for job rest m'
    by (simp add: map_position_updatePositions)
  assume free: "length (queue m) < maxQueueSize (config m)"
  let ?job = "\<lparr>jobId = (now, jobCounter m + 1), data = d, status = Queued,
           position = length (queue m) + 1, createdAt = now, startedAt = None,
           completedAt = None, result = None, error = None\<rparr>"
  have "enqueue now d m = (Inr (jobId ?job), processNext now (admitted now d m))"
    using enqueue_admitted [OF free] by simp
  moreover have "queue (admitted now d m) = queue m @ [?job]"
    by (simp add: admitted_def)
  moreover have "position ?job = length (queue m) + 1" by simp
  moreover have "Emit (jobAdded (jobId ?job) (length (queue m) + 1) (length (queue (admitted now d m))))
                 \<in> set (effects (admitted now d m))"
    by (simp add: admitted_def)
  moreover have "map position (queue (admitted now d m))
                  = [1..<length (queue (admitted now d m)) + 1]"
    using inv by (simp add: admitted_def)
  ultimately show "\<exists>job m1. enqueue now d m = (Inr (jobId job), processNext now m1)
            \<and> queue m1 = queue m @ [job] \<and> position job = length (queue m) + 1
            \<and> Emit (jobAdded (jobId job) (length (queue m) + 1) (length (queue m1)))
                 \<in> set (effects m1)
            \<and> map position (queue m1) = [1..<length (queue m1) + 1]"
    by blast
qed

theorem queue_positions_witness:
  "reachable scenarioA \<and> map position (queue scenarioA) = [1, 2, 3]
     \<and> length (queue scenarioA) < maxQueueSize (config scenarioA)
     \<and> (\<exists>job m1. enqueue 25 ''f'' scenarioA = (Inr (jobId job), processNext 25 m1)
            \<and> queue m1 = queue scenarioA @ [job] \<and> position job = 4
            \<and> Emit (jobAdded (jobId job) 4 4) \<in> set (effects m1)
            \<and> map position (queue m1) = [1, 2, 3, 4])"
proof -
  have e: "length (queue scenarioA) = 3" "maxQueueSize (config scenarioA) = 10"
    by (simp_all add: scenarioA_def scenarioA_config_def eval_defs)
  have u: "[Suc 0..<4] = [1, 2, 3]" "[Suc 0..<5] = [1, 2, 3, 4]"
    by (simp_all add: upt_rec)
  note t = queue_positions [OF scenarioA_reachable, of 25 "''f''"]
  have p: "map position (queue scenarioA) = [1, 2, 3]"
    using t [THEN conjunct1] by (simp add: e u)
  have lt: "length (queue scenarioA) < maxQueueSize (config scenarioA)"
    using e by simp
  from t [THEN conjunct2, THEN conjunct1] lt obtain job m1 where
    "enqueue 25 ''f'' scenarioA = (Inr (jobId job), processNext 25 m1)"
    "queue m1 = queue scenarioA @ [job]" "position job = length (queue scenarioA) + 1"
    "Emit (jobAdded (jobId job) (length (queue scenarioA) + 1) (length (queue m1)))
       \<in> set (effects m1)"
    "map position (queue m1) = [1..<length (queue m1) + 1]"
    by blast
  then have "enqueue 25 ''f'' scenarioA = (Inr (jobId job), processNext 25 m1)
      \<and> queue m1 = queue scenarioA @ [job] \<and> position job = 4
      \<and> Emit (jobAdded (jobId job) 4 4) \<in> set (effects m1)
      \<and> map position (queue m1) = [1, 2, 3, 4]"
    using e u by simp
  then have ex: "\<exists>job m1. enqueue 25 ''f'' scenarioA = (Inr (jobId job), processNext 25 m1)
      \<and> queue m1 = queue scenarioA @ [job] \<and> position job = 4
      \<and> Emit (jobAdded (jobId job) 4 4) \<in> set (effects m1)
      \<and> map position (queue m1) = [1, 2, 3, 4]"
    by (intro exI)
  show ?thesis by (intro conjI scenarioA_reachable p lt ex)
qed

section \<open>The rate-limit test and the backoff\<close>

lemma includesStr_iff: "includesStr s sub \<longleftrightarrow> occursIn sub s"
proof (induction s)
  case Nil
  show ?case by (auto simp: occursIn_def)
next
  case (Cons c cs)
  show ?case
  proof
    assume "includesStr (c # cs) sub"
    then consider "take (length sub) (c # cs) = sub" | "includesStr cs sub" by auto
    then show "occursIn sub (c # cs)"
    proof cases
      case 1
      then have "c # cs = [] @ sub @ drop (length sub) (c # cs)"
        by (metis append_Nil append_take_drop_id)
      then show ?thesis unfolding occursIn_def by blast
    next
      case 2
      then obtain ps ss where "cs = ps @ sub @ ss" using Cons.IH by (auto simp: occursIn_def)
      then have "c # cs = (c # ps) @ sub @ ss" by simp
      then show ?thesis unfolding occursIn_def by blast
    qed
  next
    assume "occursIn sub (c # cs)"
    then obtain ps ss where e: "c # cs = ps @ sub @ ss" by (auto simp: occursIn_def)
    show "includesStr (c # cs) sub"
    proof (cases ps)
      case Nil
      then have "take (length sub) (c # cs) = sub" using e by simp
      then show ?thesis by simp
    next
      case (Cons p ps')
      then have "cs = ps' @ sub @ ss" using e by simp
      then have "occursIn sub cs" unfolding occursIn_def by blast
      then show ?thesis using Cons.IH by simp
    qed
  qed
qed

lemma isRateLimited_iff:
  "isRateLimited msg \<longleftrightarrow> occursIn ''429'' msg \<or> occursIn ''rate'' msg \<or> occursIn ''limit'' msg"
  by (simp add: isRateLimited_def includesStr_iff)

lemma occursIn_subset: "occursIn sub s \<Longrightarrow> set sub \<subseteq> set s"
  by (auto simp: occursIn_def)

lemma upperChar_cases:
  "(upperChar c = c \<and> c \<notin> set ''abcdefghijklmnopqrstuvwxyz'')
     \<or> upperChar c \<in> set ''ABCDEFGHIJKLMNOPQRSTUVWXYZ''"
proof (cases "map_of (zip ''abcdefghijklmnopqrstuvwxyz'' ''ABCDEFGHIJKLMNOPQRSTUVWXYZ'') c")
  case None
  then have "c \<notin> set ''abcdefghijklmnopqrstuvwxyz''"
    by (subst (asm) map_of_zip_is_None) simp_all
  then show ?thesis using None by (simp add: upperChar_def)
next
  case (Some u)
  then have "(c, u) \<in> set (zip ''abcdefghijklmnopqrstuvwxyz'' ''ABCDEFGHIJKLMNOPQRSTUVWXYZ'')"
    by (rule map_of_SomeD)
  then have "u \<in> set ''ABCDEFGHIJKLMNOPQRSTUVWXYZ''"
    by (rule set_zip_rightD)
  then show ?thesis using Some by (simp add: upperChar_def)
qed

lemma upperChar_not_lower:
  "upperChar c \<noteq> CHR ''r''" "upperChar c \<noteq> CHR ''l''"
  using upperChar_cases [of c] by auto

lemma upperChar_digit:
  "upperChar c = CHR ''4'' \<Longrightarrow> c = CHR ''4''"
  "upperChar c = CHR ''2'' \<Longrightarrow> c = CHR ''2''"
  "upperChar c = CHR ''9'' \<Longrightarrow> c = CHR ''9''"
  using upperChar_cases [of c] by auto

lemma map_upperChar_429:
  assumes "map upperChar b = ''429''"
  shows "b = ''429''"
proof -
  from assms obtain x b1 where b: "b = x # b1" and x: "upperChar x = CHR ''4''"
    and b1: "map upperChar b1 = ''29''"
    by (cases b) simp_all
  from b1 obtain y b2 where b1': "b1 = y # b2" and y: "upperChar y = CHR ''2''"
    and b2: "map upperChar b2 = ''9''"
    by (cases b1) simp_all
  from b2 obtain z b3 where b2': "b2 = z # b3" and z: "upperChar z = CHR ''9''"
    and b3: "map upperChar b3 = []"
    by (cases b2) simp_all
  show ?thesis
    using b b1' b2' b3 upperChar_digit(1) [OF x] upperChar_digit(2) [OF y]
      upperChar_digit(3) [OF z]
    by simp
qed

lemma occursIn_429_upper:
  assumes "occursIn ''429'' (map upperChar s)"
  shows "occursIn ''429'' s"
proof -
  from assms have "\<exists>ps ss. map upperChar s = ps @ (''429'' @ ss)"
    by (simp only: occursIn_def)
  then obtain ps ss where "map upperChar s = ps @ (''429'' @ ss)"
    by (elim exE)
  then have "\<exists>us vs. s = us @ vs \<and> ps = map upperChar us \<and> ''429'' @ ss = map upperChar vs"
    by (simp only: map_eq_append_conv)
  then obtain us vs where usvs:
    "s = us @ vs \<and> ps = map upperChar us \<and> ''429'' @ ss = map upperChar vs"
    by (elim exE)
  have s: "s = us @ vs" and vs0: "''429'' @ ss = map upperChar vs"
    using usvs by simp_all
  have vs: "map upperChar vs = ''429'' @ ss" using vs0 by (rule sym)
  from vs have "\<exists>b c. vs = b @ c \<and> ''429'' = map upperChar b \<and> ss = map upperChar c"
    by (simp only: map_eq_append_conv)
  then obtain b c where bc:
    "vs = b @ c \<and> ''429'' = map upperChar b \<and> ss = map upperChar c"
    by (elim exE)
  have vs': "vs = b @ c" and b0: "''429'' = map upperChar b"
    using bc by simp_all
  have b: "map upperChar b = ''429''" using b0 by (rule sym)
  have "b = ''429''" by (rule map_upperChar_429 [OF b])
  then have "s = us @ ''429'' @ c" using s vs' by simp
  then show ?thesis unfolding occursIn_def by blast
qed

lemma upper_not_rateLimited:
  assumes "\<not> occursIn ''429'' msg"
  shows "\<not> isRateLimited (map upperChar msg)"
proof -
  have "\<not> occursIn ''rate'' (map upperChar msg)"
  proof
    assume "occursIn ''rate'' (map upperChar msg)"
    then have "CHR ''r'' \<in> set (map upperChar msg)"
      using occursIn_subset by fastforce
    then obtain x where "upperChar x = CHR ''r''" by auto
    then show False using upperChar_not_lower(1) [of x] by simp
  qed
  moreover have "\<not> occursIn ''limit'' (map upperChar msg)"
  proof
    assume "occursIn ''limit'' (map upperChar msg)"
    then have "CHR ''l'' \<in> set (map upperChar msg)"
      using occursIn_subset by fastforce
    then obtain x where "upperChar x = CHR ''l''" by auto
    then show False using upperChar_not_lower(2) [of x] by simp
  qed
  ultimately show ?thesis using assms occursIn_429_upper by (auto simp: isRateLimited_iff)
qed

lemma occursIn_eval: "occursIn sub s = includesStr s sub"
  by (simp add: includesStr_iff)

text \<open>
  C8. When an attempt fails and a retry follows (the attempt is not the last one allowed), the
  call sleeps \<open>retryDelay * attempt * 2\<close> if the message of the failure contains "429",
  "rate" or "limit", and \<open>retryDelay * attempt\<close> otherwise, \<open>attempt\<close> being the number of
  the attempt that failed, counted from 1; after the sleep the processor is called with the
  next attempt number.
\<close>

theorem retry_backoff:
  assumes "withTimeout x = Rejected msg" and "attempt f < retryAttempts (config m)"
  shows "attemptSettled now f x m =
      m\<lparr>effects := effects m @
           [Sleep (jobId (fjob f))
              (if occursIn ''429'' msg \<or> occursIn ''rate'' msg \<or> occursIn ''limit'' msg
               then retryDelay (config m) * attempt f * 2
               else retryDelay (config m) * attempt f)],
        suspended := remove1 f (suspended m) @
           [\<lparr>fjob = fjob f, attempt = attempt f, lastError = Some msg,
             awaiting = AwaitSleep\<rparr>]\<rparr>
    \<and> (\<forall>m'. retryAttempts (config m') = retryAttempts (config m) \<longrightarrow>
           sleepOver now \<lparr>fjob = fjob f, attempt = attempt f, lastError = Some msg,
                 awaiting = AwaitSleep\<rparr> m' =
           m'\<lparr>effects := effects m' @
                [CallProcessor (jobId (fjob f)) (attempt f + 1),
                 SetTimeout (jobId (fjob f)) (jobTimeout (config m'))],
             suspended := remove1 \<lparr>fjob = fjob f, attempt = attempt f, lastError = Some msg,
                 awaiting = AwaitSleep\<rparr> (suspended m') @
                [\<lparr>fjob = fjob f, attempt = attempt f + 1, lastError = Some msg,
                  awaiting = AwaitAttempt\<rparr>]\<rparr>)"
  using assms
  by (simp add: attemptSettled_def Let_def sleep_def retryDelayFor_def isRateLimited_iff
      sleepOver_def executeJob_from_def callProcessor_def)

theorem retry_backoff_witness:
  "withTimeout (ProcessorFirst (Rejected ''HTTP 429 Too Many Requests'')) =
      Rejected ''HTTP 429 Too Many Requests''
   \<and> attempt scenarioB_frame < retryAttempts (config scenarioB)
   \<and> effects (attemptSettled 12 scenarioB_frame
         (ProcessorFirst (Rejected ''HTTP 429 Too Many Requests'')) scenarioB) =
       effects scenarioB @ [Sleep (10, 1) 4000]"
proof -
  have h1: "withTimeout (ProcessorFirst (Rejected ''HTTP 429 Too Many Requests'')) =
      Rejected ''HTTP 429 Too Many Requests''"
    by (simp add: withTimeout_def)
  have v: "attempt scenarioB_frame = 1" "retryAttempts (config scenarioB) = 3"
    "retryDelay (config scenarioB) = 2000" "jobId (fjob scenarioB_frame) = (10, 1)"
    by (simp_all add: scenarioB_frame_def scenarioB_def scenarioB_config_def eval_defs)
  have h2: "attempt scenarioB_frame < retryAttempts (config scenarioB)"
    by (simp add: v)
  have "effects (attemptSettled 12 scenarioB_frame
         (ProcessorFirst (Rejected ''HTTP 429 Too Many Requests'')) scenarioB) =
       effects scenarioB @ [Sleep (10, 1) 4000]"
    by (simp add: retry_backoff [OF h1 h2, THEN conjunct1] v occursIn_eval)
  then show ?thesis using h1 h2 by simp
qed

text \<open>
  C10, as stated, fails: "Rate limit exceeded" and "rate limit exceeded" differ only in letter
  case and neither contains "429", yet the variant with the capital is classified as
  rate-limited as well, because it contains "limit".
\<close>

theorem rate_limit_case_counterexample:
  "map lowerChar ''Rate limit exceeded'' = map lowerChar ''rate limit exceeded''
   \<and> ''Rate limit exceeded'' \<noteq> ''rate limit exceeded''
   \<and> \<not> includesStr ''Rate limit exceeded'' ''429''
   \<and> \<not> includesStr ''rate limit exceeded'' ''429''
   \<and> isRateLimited ''Rate limit exceeded''
   \<and> isRateLimited ''rate limit exceeded''"
  by (simp add: isRateLimited_def lowerChar_def)

text \<open>
  C10, amended. The classification is a case-sensitive substring test: a message is
  rate-limited exactly when "429", "rate" or "limit" occurs in it, spelled so. Of two messages
  that differ only in letter case and have no "429", a variant in which neither "rate" nor
  "limit" occurs in lowercase is not rate-limited (linear backoff) and a variant in which one
  of them does is rate-limited (doubled backoff); so is "Rate Limit exceeded" against
  "rate limit exceeded", and no message in capitals without "429" is rate-limited. A message
  in which "limit" occurs inside an unrelated word is rate-limited.
\<close>

theorem rate_limit_case_sensitive:
  "(isRateLimited msg \<longleftrightarrow>
      occursIn ''429'' msg \<or> occursIn ''rate'' msg \<or> occursIn ''limit'' msg)
   \<and> (map lowerChar u = map lowerChar l \<and> \<not> occursIn ''429'' u
        \<and> \<not> occursIn ''rate'' u \<and> \<not> occursIn ''limit'' u
        \<and> (occursIn ''rate'' l \<or> occursIn ''limit'' l)
      \<longrightarrow> \<not> isRateLimited u \<and> retryDelayFor c a u = retryDelay c * a
        \<and> isRateLimited l \<and> retryDelayFor c a l = retryDelay c * a * 2)
   \<and> (\<not> occursIn ''429'' msg \<longrightarrow> \<not> isRateLimited (map upperChar msg))
   \<and> map lowerChar ''Rate Limit exceeded'' = ''rate limit exceeded''
   \<and> \<not> isRateLimited ''Rate Limit exceeded''
   \<and> isRateLimited ''rate limit exceeded''
   \<and> (occursIn ''limit'' msg \<longrightarrow> isRateLimited msg)
   \<and> isRateLimited ''unlimited retries are not allowed''"
proof (intro conjI impI)
  show "isRateLimited msg \<longleftrightarrow>
      occursIn ''429'' msg \<or> occursIn ''rate'' msg \<or> occursIn ''limit'' msg"
    by (rule isRateLimited_iff)
  show "\<not> isRateLimited (map upperChar msg)" if "\<not> occursIn ''429'' msg"
    using that by (rule upper_not_rateLimited)
  show "isRateLimited msg" if "occursIn ''limit'' msg"
    using that by (simp add: isRateLimited_iff)
  show "map lowerChar ''Rate Limit exceeded'' = ''rate limit exceeded''"
    by (simp add: lowerChar_def)
  show "\<not> isRateLimited ''Rate Limit exceeded''"
    by (simp add: isRateLimited_def)
  show "isRateLimited ''rate limit exceeded''"
    by (simp add: isRateLimited_def)
  show "isRateLimited ''unlimited retries are not allowed''"
    by (simp add: isRateLimited_def)
next
  assume h: "map lowerChar u = map lowerChar l \<and> \<not> occursIn ''429'' u
        \<and> \<not> occursIn ''rate'' u \<and> \<not> occursIn ''limit'' u
        \<and> (occursIn ''rate'' l \<or> occursIn ''limit'' l)"
  then show "\<not> isRateLimited u" by (simp add: isRateLimited_iff)
  then show "retryDelayFor c a u = retryDelay c * a" by (simp add: retryDelayFor_def)
  from h show "isRateLimited l" by (simp add: isRateLimited_iff)
  then show "retryDelayFor c a l = retryDelay c * a * 2" by (simp add: retryDelayFor_def)
qed

theorem rate_limit_case_sensitive_witness:
  "\<not> occursIn ''429'' ''Too many requests: rate limit''
   \<and> map upperChar ''Too many requests: rate limit'' = ''TOO MANY REQUESTS: RATE LIMIT''
   \<and> \<not> isRateLimited ''TOO MANY REQUESTS: RATE LIMIT''
   \<and> occursIn ''limit'' ''unlimited'' \<and> isRateLimited ''unlimited''"
proof -
  have n: "\<not> occursIn ''429'' ''Too many requests: rate limit''"
    by (simp add: occursIn_eval)
  have l: "occursIn ''limit'' ''unlimited''"
    by (simp add: occursIn_eval)
  have u: "map upperChar ''Too many requests: rate limit'' = ''TOO MANY REQUESTS: RATE LIMIT''"
    by (simp add: upperChar_def)
  note t = rate_limit_case_sensitive [of "''Too many requests: rate limit''"]
  have "\<not> isRateLimited (map upperChar ''Too many requests: rate limit'')"
    using t [THEN conjunct2, THEN conjunct2, THEN conjunct1] n by (rule mp)
  moreover have "isRateLimited ''unlimited''"
    using rate_limit_case_sensitive [of "''unlimited''", THEN conjunct2, THEN conjunct2,
        THEN conjunct2, THEN conjunct2, THEN conjunct2, THEN conjunct2, THEN conjunct1] l
    by (rule mp)
  ultimately show ?thesis using n l u by simp
qed

section \<open>Well-formed states\<close>

text \<open>Every reachable state is well-formed; the proof follows the code, one lemma for each
  stretch of it.\<close>

lemma settledIds_append [simp]: "settledIds (a @ b) = settledIds a @ settledIds b"
  by (simp add: settledIds_def)

lemma settledIds_Nil [simp]: "settledIds [] = []"
  by (simp add: settledIds_def)

lemma settledIds_Cons [simp]: "settledIds (e # es) = settledId e @ settledIds es"
  by (simp add: settledIds_def)

lemma admittedIds_append [simp]: "admittedIds (a @ b) = admittedIds a @ admittedIds b"
  by (simp add: admittedIds_def)

lemma admittedIds_Nil [simp]: "admittedIds [] = []"
  by (simp add: admittedIds_def)

lemma admittedIds_Cons [simp]: "admittedIds (e # es) = admittedId e @ admittedIds es"
  by (simp add: admittedIds_def)

lemma map_snd_enumerate_comp: "map (\<lambda>p. g (snd p)) (enumerate n q) = map g q"
  by (induction q arbitrary: n) simp_all

lemma map_jobId_updatePositions [simp]: "map jobId (updatePositions q) = map jobId q"
  by (simp add: updatePositions_def case_prod_unfold comp_def map_snd_enumerate_comp)

lemma keys_update_fresh:
  "k \<notin> set (map fst al) \<Longrightarrow> map fst (AList.update k v al) = map fst al @ [k]"
  by (simp add: AList.update_keys)

lemma keys_delete: "map fst (AList.delete k al) = removeAll k (map fst al)"
  by (induction al) auto

lemma map_remove1_distinct:
  "distinct (map g xs) \<Longrightarrow> x \<in> set xs \<Longrightarrow> map g (remove1 x xs) = remove1 (g x) (map g xs)"
proof (induction xs)
  case Nil
  then show ?case by simp
next
  case (Cons a xs)
  show ?case
  proof (cases "x = a")
    case True
    then show ?thesis by simp
  next
    case False
    then have x: "x \<in> set xs" using Cons.prems(2) by simp
    then have "g x \<in> g ` set xs" by (rule imageI)
    then have "g x \<noteq> g a" using Cons.prems(1) by auto
    then show ?thesis using False Cons.IH x Cons.prems(1) by simp
  qed
qed

lemma frameIds_unframed:
  "distinct (frameIds m) \<Longrightarrow> f \<in> set (suspended m)
     \<Longrightarrow> frameIds (unframed f m) = remove1 (jobId (fjob f)) (frameIds m)"
  by (simp add: frameIds_def unframed_def map_remove1_distinct)

lemma frameId_in: "f \<in> set (suspended m) \<Longrightarrow> jobId (fjob f) \<in> set (frameIds m)"
  by (simp add: frameIds_def)

lemma wellFormedD:
  assumes "wellFormed m"
  shows "distinct (allIds m)"
    and "distinct (frameIds m)"
    and "set (frameIds m) = set (map fst (processing m))"
    and "\<forall>j \<in> set (allIds m). snd j \<le> jobCounter m"
    and "settledIds (effects m) = map jobId (terminal m)"
    and "set (admittedIds (effects m)) = set (allIds m)"
    and "\<forall>f \<in> set (suspended m). frameOk (config m) f"
  using assms by (simp_all add: wellFormed_def list_all_iff)

lemma wellFormedI:
  assumes "distinct (allIds m)"
    and "distinct (frameIds m)"
    and "set (frameIds m) = set (map fst (processing m))"
    and "\<forall>j \<in> set (allIds m). snd j \<le> jobCounter m"
    and "settledIds (effects m) = map jobId (terminal m)"
    and "set (admittedIds (effects m)) = set (allIds m)"
    and "\<forall>f \<in> set (suspended m). frameOk (config m) f"
  shows "wellFormed m"
  using assms by (simp add: wellFormed_def list_all_iff)

lemma wf_new: "wellFormed (newQueueManager p)"
  by (simp add: wellFormed_def newQueueManager_def liveIds_def allIds_def frameIds_def)

lemma wf_flag: "wellFormed m \<Longrightarrow> wellFormed (m\<lparr>isProcessing := b\<rparr>)"
  by (simp add: wellFormed_def liveIds_def allIds_def frameIds_def)

lemma wf_admit:
  assumes "wellFormed m"
  shows "wellFormed (admitted now d m)"
proof (rule wellFormedI)
  note wf = wellFormedD [OF assms]
  have fresh: "(now, Suc (jobCounter m)) \<notin> set (allIds m)"
  proof
    assume "(now, Suc (jobCounter m)) \<in> set (allIds m)"
    with wf(4) have "snd (now, Suc (jobCounter m)) \<le> jobCounter m" by blast
    then show False by simp
  qed
  have ids: "set (allIds (admitted now d m)) = insert (now, Suc (jobCounter m)) (set (allIds m))"
    by (auto simp: admitted_def liveIds_def allIds_def)
  show "distinct (allIds (admitted now d m))"
    using wf(1) fresh by (auto simp: admitted_def liveIds_def allIds_def)
  show "distinct (frameIds (admitted now d m))"
    using wf(2) by (simp add: admitted_def frameIds_def)
  show "set (frameIds (admitted now d m)) = set (map fst (processing (admitted now d m)))"
    using wf(3) by (simp add: admitted_def frameIds_def)
  show "\<forall>j \<in> set (allIds (admitted now d m)). snd j \<le> jobCounter (admitted now d m)"
    unfolding ids using wf(4) by (auto simp: admitted_def)
  show "settledIds (effects (admitted now d m)) = map jobId (terminal (admitted now d m))"
    using wf(5) by (simp add: admitted_def)
  show "set (admittedIds (effects (admitted now d m))) = set (allIds (admitted now d m))"
    unfolding ids using wf(6) by (simp add: admitted_def)
  show "\<forall>f \<in> set (suspended (admitted now d m)). frameOk (config (admitted now d m)) f"
    using wf(7) by (simp add: admitted_def)
qed

lemma update_fresh: "k \<notin> set (map fst al) \<Longrightarrow> AList.update k v al = al @ [(k, v)]"
  by (induction al) auto

lemma delete_fresh: "k \<notin> set (map fst al) \<Longrightarrow> AList.delete k al = al"
  by (induction al) auto

lemma delete_append: "AList.delete k (al @ bl) = AList.delete k al @ AList.delete k bl"
  by (simp add: AList.delete_eq)

lemma dispatch_retrying:
  assumes "jobId job \<notin> set (map fst (processing m))" and "1 \<le> retryAttempts (config m)"
  shows "dispatch now job rest m =
     m\<lparr>queue := updatePositions rest,
       processing := processing m @
          [(jobId job, job\<lparr>status := Processing, startedAt := Some now\<rparr>)],
       effects := effects m @
          [Emit (jobStarted (jobId job) (length (processing m) + 1)),
           CallProcessor (jobId job) 1, SetTimeout (jobId job) (jobTimeout (config m))],
       suspended := suspended m @
          [\<lparr>fjob = job\<lparr>status := Processing, startedAt := Some now\<rparr>, attempt = 1,
            lastError = None, awaiting = AwaitAttempt\<rparr>]\<rparr>"
  using assms
  by (simp add: dispatch_def Let_def executeJob_inLoop_def callProcessor_def update_fresh)

lemma dispatch_no_attempts:
  assumes "jobId job \<notin> set (map fst (processing m))" and "retryAttempts (config m) = 0"
  shows "dispatch now job rest m =
     m\<lparr>queue := updatePositions rest,
       effects := effects m @
          [Emit (jobStarted (jobId job) (length (processing m) + 1)),
           Emit (jobFailed (jobId job) unknownErrorMessage),
           Reject (jobId job) processingFailedMessage],
       terminal := terminal m @
          [job\<lparr>status := Failed, startedAt := Some now, completedAt := Some now,
             error := Some unknownErrorMessage\<rparr>]\<rparr>"
  using assms
  by (simp add: dispatch_def Let_def executeJob_inLoop_def failJob_def update_fresh
      delete_append delete_fresh errorText_def rejectionOf_def)

lemma wf_dispatch:
  assumes "wellFormed m" and "queue m = job # rest"
  shows "wellFormed (dispatch now job rest m)"
proof -
  note wf = wellFormedD [OF assms(1)]
  have d: "distinct (jobId job # map jobId rest @ map fst (processing m) @ map jobId (terminal m))"
    using wf(1) assms(2) by (simp add: allIds_def liveIds_def)
  have ids: "set (allIds m)
      = insert (jobId job) (set (map jobId rest) \<union> set (map fst (processing m))
          \<union> set (map jobId (terminal m)))"
    using assms(2) by (auto simp: allIds_def liveIds_def)
  have fresh: "jobId job \<notin> set (map fst (processing m))" using d by auto
  show ?thesis
  proof (cases "1 \<le> retryAttempts (config m)")
    case True
    let ?m = "dispatch now job rest m"
    note e = dispatch_retrying [OF fresh True, of now rest]
    show ?thesis
    proof (rule wellFormedI)
      show "distinct (allIds ?m)"
        unfolding e using d by (auto simp: allIds_def liveIds_def)
      show "distinct (frameIds ?m)"
        unfolding e using wf(2) wf(3) fresh by (simp add: frameIds_def)
      show "set (frameIds ?m) = set (map fst (processing ?m))"
        unfolding e using wf(3) by (simp add: frameIds_def)
      have s: "set (allIds ?m) = set (allIds m)"
        unfolding e ids by (auto simp: allIds_def liveIds_def)
      show "\<forall>j \<in> set (allIds ?m). snd j \<le> jobCounter ?m"
        unfolding s using wf(4) by (simp add: e)
      show "settledIds (effects ?m) = map jobId (terminal ?m)"
        unfolding e using wf(5) by simp
      show "set (admittedIds (effects ?m)) = set (allIds ?m)"
        unfolding s using wf(6) by (simp add: e)
      show "\<forall>f \<in> set (suspended ?m). frameOk (config ?m) f"
        unfolding e using wf(7) True by (simp add: frameOk_def)
    qed
  next
    case False
    then have z: "retryAttempts (config m) = 0" by simp
    let ?m = "dispatch now job rest m"
    note e = dispatch_no_attempts [OF fresh z, of now rest]
    show ?thesis
    proof (rule wellFormedI)
      show "distinct (allIds ?m)"
        unfolding e using d by (auto simp: allIds_def liveIds_def)
      show "distinct (frameIds ?m)"
        unfolding e using wf(2) by (simp add: frameIds_def)
      show "set (frameIds ?m) = set (map fst (processing ?m))"
        unfolding e using wf(3) by (simp add: frameIds_def)
      have s: "set (allIds ?m) = set (allIds m)"
        unfolding e ids by (auto simp: allIds_def liveIds_def)
      show "\<forall>j \<in> set (allIds ?m). snd j \<le> jobCounter ?m"
        unfolding s using wf(4) by (simp add: e)
      show "settledIds (effects ?m) = map jobId (terminal ?m)"
        unfolding e using wf(5) by simp
      show "set (admittedIds (effects ?m)) = set (allIds ?m)"
        unfolding s using wf(6) by (simp add: e)
      show "\<forall>f \<in> set (suspended ?m). frameOk (config ?m) f"
        unfolding e using wf(7) by simp
    qed
  qed
qed

lemma set_move: "j \<in> set ks \<Longrightarrow> set (qs @ removeAll j ks @ ts @ [j]) = set (qs @ ks @ ts)"
  by auto

lemma set_requeue: "distinct fs \<Longrightarrow> j \<in> set fs \<Longrightarrow> set (remove1 j fs @ [j]) = set fs"
  by auto

lemma wf_finish:
  assumes "wellFormed m" and "f \<in> set (suspended m)"
    and m': "queue m' = queue m" "processing m' = AList.delete (jobId (fjob f)) (processing m)"
      "suspended m' = remove1 f (suspended m)" "jobCounter m' = jobCounter m"
      "config m' = config m"
      "map jobId (terminal m') = map jobId (terminal m) @ [jobId (fjob f)]"
      "settledIds (effects m') = settledIds (effects m) @ [jobId (fjob f)]"
      "admittedIds (effects m') = admittedIds (effects m)"
  shows "wellFormed m'"
proof (rule wellFormedI)
  note wf = wellFormedD [OF assms(1)]
  let ?j = "jobId (fjob f)"
  have jf: "?j \<in> set (frameIds m)" using assms(2) by (rule frameId_in)
  then have jk: "?j \<in> set (map fst (processing m))" using wf(3) by simp
  have d: "distinct (map jobId (queue m) @ map fst (processing m) @ map jobId (terminal m))"
    using wf(1) by (simp add: allIds_def liveIds_def)
  have nq: "?j \<notin> set (map jobId (queue m))" and nt: "?j \<notin> set (map jobId (terminal m))"
    using d jk by auto
  have fi: "frameIds m' = remove1 ?j (frameIds m)"
    using map_remove1_distinct [of "\<lambda>f. jobId (fjob f)" "suspended m" f] wf(2) assms(2) m'(3)
    by (simp add: frameIds_def)
  have ids: "allIds m' = map jobId (queue m) @ removeAll ?j (map fst (processing m))
      @ map jobId (terminal m) @ [?j]"
    by (simp add: allIds_def liveIds_def m' keys_delete)
  have s: "set (allIds m') = set (allIds m)"
    unfolding ids using set_move [OF jk] by (simp only: allIds_def liveIds_def append_assoc)
  show "distinct (allIds m')"
    unfolding ids using d nq nt by (auto simp: distinct_removeAll)
  show "distinct (frameIds m')"
    unfolding fi using wf(2) by simp
  show "set (frameIds m') = set (map fst (processing m'))"
    unfolding fi using wf(2) wf(3) by (simp add: m' keys_delete)
  show "\<forall>j \<in> set (allIds m'). snd j \<le> jobCounter m'"
    unfolding s using wf(4) by (simp add: m')
  show "settledIds (effects m') = map jobId (terminal m')"
    using wf(5) by (simp add: m')
  show "set (admittedIds (effects m')) = set (allIds m')"
    unfolding s using wf(6) by (simp add: m')
  show "\<forall>f \<in> set (suspended m'). frameOk (config m') f"
    using wf(7) by (auto simp: m' dest: notin_set_remove1)
qed

lemma wf_complete:
  "wellFormed m \<Longrightarrow> f \<in> set (suspended m)
     \<Longrightarrow> wellFormed (completeJob now (fjob f) r (unframed f m))"
  by (erule (1) wf_finish) (simp_all add: completeJob_def unframed_def)

lemma wf_fail:
  "wellFormed m \<Longrightarrow> f \<in> set (suspended m)
     \<Longrightarrow> wellFormed (failJob now (fjob f) le (unframed f m))"
  by (erule (1) wf_finish) (simp_all add: failJob_def unframed_def)

lemma wf_reframe:
  assumes "wellFormed m" and "f \<in> set (suspended m)"
    and f': "fjob f' = fjob f" "frameOk (config m) f'"
    and m': "queue m' = queue m" "processing m' = processing m"
      "suspended m' = remove1 f (suspended m) @ [f']" "jobCounter m' = jobCounter m"
      "config m' = config m" "terminal m' = terminal m"
      "settledIds (effects m') = settledIds (effects m)"
      "admittedIds (effects m') = admittedIds (effects m)"
  shows "wellFormed m'"
proof (rule wellFormedI)
  note wf = wellFormedD [OF assms(1)]
  let ?j = "jobId (fjob f)"
  have jf: "?j \<in> set (frameIds m)" using assms(2) by (rule frameId_in)
  have fi: "frameIds m' = remove1 ?j (frameIds m) @ [?j]"
    using map_remove1_distinct [of "\<lambda>f. jobId (fjob f)" "suspended m" f] wf(2) assms(2) m'(3) f'(1)
    by (simp add: frameIds_def)
  have ids: "allIds m' = allIds m"
    by (simp add: allIds_def liveIds_def m')
  show "distinct (allIds m')" unfolding ids by (rule wf(1))
  show "distinct (frameIds m')"
    unfolding fi using wf(2) by simp
  show "set (frameIds m') = set (map fst (processing m'))"
    unfolding fi using wf(3) set_requeue [OF wf(2) jf] by (simp only: m')
  show "\<forall>j \<in> set (allIds m'). snd j \<le> jobCounter m'"
    unfolding ids using wf(4) by (simp add: m')
  show "settledIds (effects m') = map jobId (terminal m')"
    using wf(5) by (simp add: m')
  show "set (admittedIds (effects m')) = set (allIds m')"
    unfolding ids using wf(6) by (simp add: m')
  show "\<forall>f \<in> set (suspended m'). frameOk (config m') f"
    using wf(7) f'(2) by (auto simp: m' dest: notin_set_remove1)
qed

lemma wf_sleep:
  assumes "wellFormed m" and "f \<in> set (suspended m)" and "attempt f < retryAttempts (config m)"
  shows "wellFormed (sleep (fjob f) (attempt f) msg ms (unframed f m))"
proof (rule wf_reframe [OF assms(1,2)])
  have "frameOk (config m) f" using wellFormedD(7) [OF assms(1)] assms(2) by blast
  then show "frameOk (config m) \<lparr>fjob = fjob f, attempt = attempt f, lastError = Some msg,
      awaiting = AwaitSleep\<rparr>"
    using assms(3) by (simp add: frameOk_def)
qed (simp_all add: sleep_def unframed_def)

lemma wf_call:
  assumes "wellFormed m" and "f \<in> set (suspended m)" and "attempt f < retryAttempts (config m)"
  shows "wellFormed (callProcessor (fjob f) (attempt f + 1) (lastError f) (unframed f m))"
proof (rule wf_reframe [OF assms(1,2)])
  show "frameOk (config m) \<lparr>fjob = fjob f, attempt = attempt f + 1, lastError = lastError f,
      awaiting = AwaitAttempt\<rparr>"
    using assms(3) by (simp add: frameOk_def)
qed (simp_all add: callProcessor_def unframed_def)

lemma reachable_wellFormed: "reachable m \<Longrightarrow> wellFormed m"
proof (induction rule: reachable_rule)
  case (new p)
  show ?case by (rule wf_new)
next
  case (admit m now d)
  then show ?case by (simp add: wf_admit)
next
  case (flag m b)
  then show ?case by (simp add: wf_flag)
next
  case (dispatch m now job rest)
  then show ?case by (simp add: wf_dispatch)
next
  case (complete m f now r)
  then show ?case by (simp add: wf_complete)
next
  case (fail m f now le)
  then show ?case by (simp add: wf_fail)
next
  case (sleep m f msg ms)
  then show ?case by (simp add: wf_sleep)
next
  case (call m f)
  then show ?case using wf_call [of m f] by simp
qed

lemma wellFormed_live:
  assumes "wellFormed s"
  shows "distinct (map jobId (queue s) @ map fst (processing s))"
proof -
  have "distinct (liveIds s @ map jobId (terminal s))"
    using wellFormedD(1) [OF assms] by (simp only: allIds_def)
  then have "distinct (liveIds s)" by (simp only: distinct_append)
  then show ?thesis by (simp only: liveIds_def)
qed

lemma reachable_processing_distinct:
  assumes "reachable m"
  shows "distinct (map fst (processing m))"
  using wellFormed_live [OF reachable_wellFormed [OF assms]] by simp






section \<open>The run of one job\<close>

lemma find_append_last: "\<forall>x \<in> set xs. \<not> P x \<Longrightarrow> P y \<Longrightarrow> find P (xs @ [y]) = Some y"
  by (induction xs) auto

lemma remove1_append_last: "y \<notin> set xs \<Longrightarrow> remove1 y (xs @ [y]) = xs"
  by (simp add: remove1_append)

lemma frame_not_suspended:
  "jobId job \<notin> set (frameIds m) \<Longrightarrow> fjob f = job \<Longrightarrow> f \<notin> set (suspended m)"
  using frameId_in [of f m] by blast

lemma frameOf_last:
  assumes "jobId (fjob f) \<notin> set (frameIds m)"
  shows "frameOf (jobId (fjob f)) (m\<lparr>effects := es, suspended := suspended m @ [f]\<rparr>) = Some f"
proof -
  have "\<not> jobId (fjob g) = jobId (fjob f)" if "g \<in> set (suspended m)" for g
  proof
    assume e: "jobId (fjob g) = jobId (fjob f)"
    have "jobId (fjob g) \<in> set (frameIds m)" using that by (rule frameId_in)
    then show False using assms e by simp
  qed
  then have "\<forall>g \<in> set (suspended m). \<not> jobId (fjob g) = jobId (fjob f)"
    by blast
  then have "find (\<lambda>g. jobId (fjob g) = jobId (fjob f)) (suspended m @ [f]) = Some f"
    by (rule find_append_last) simp
  then show ?thesis by (simp add: frameOf_def)
qed

lemma attempt_fails_retry:
  assumes fresh: "jobId job \<notin> set (frameIds m)"
    and x: "withTimeout x = Rejected msg" and a: "a < retryAttempts (config m)"
  shows "wake now (jobId job)
      (attemptSettled now \<lparr>fjob = job, attempt = a, lastError = le, awaiting = AwaitAttempt\<rparr> x
         (callProcessor job a le m))
    = callProcessor job (Suc a) (Some msg)
        (m\<lparr>effects := effects m @ retries (config m) (jobId job) a [msg]\<rparr>)"
proof -
  let ?f = "\<lparr>fjob = job, attempt = a, lastError = le, awaiting = AwaitAttempt\<rparr>"
  let ?s = "\<lparr>fjob = job, attempt = a, lastError = Some msg, awaiting = AwaitSleep\<rparr>"
  let ?es = "effects m @ [CallProcessor (jobId job) a, SetTimeout (jobId job) (jobTimeout (config m)),
      Sleep (jobId job) (retryDelayFor (config m) a msg)]"
  have nf: "?f \<notin> set (suspended m)" and ns: "?s \<notin> set (suspended m)"
    using fresh by (simp_all add: frame_not_suspended)
  have 1: "attemptSettled now ?f x (callProcessor job a le m)
      = m\<lparr>effects := ?es, suspended := suspended m @ [?s]\<rparr>"
    using x a nf
    by (simp add: attemptSettled_def callProcessor_def Let_def sleep_def remove1_append_last)
  have 2: "frameOf (jobId job) (m\<lparr>effects := ?es, suspended := suspended m @ [?s]\<rparr>) = Some ?s"
    using frameOf_last [of ?s m ?es] fresh by simp
  show ?thesis
    unfolding 1 using 2 a ns
    by (simp add: wake_def sleepOver_def Let_def executeJob_from_def callProcessor_def
        remove1_append_last)
qed

lemma attempt_succeeds:
  assumes fresh: "jobId job \<notin> set (frameIds m)" and x: "withTimeout x = Fulfilled r"
  shows "attemptSettled now \<lparr>fjob = job, attempt = a, lastError = le, awaiting = AwaitAttempt\<rparr> x
         (callProcessor job a le m)
    = processNext now (completeJob now job r
        (m\<lparr>effects := effects m @
            [CallProcessor (jobId job) a, SetTimeout (jobId job) (jobTimeout (config m))]\<rparr>))"
proof -
  let ?f = "\<lparr>fjob = job, attempt = a, lastError = le, awaiting = AwaitAttempt\<rparr>"
  have nf: "?f \<notin> set (suspended m)"
    using fresh by (simp add: frame_not_suspended)
  show ?thesis
    using x nf
    by (simp add: attemptSettled_def callProcessor_def Let_def remove1_append_last)
qed

lemma attempt_fails_last:
  assumes fresh: "jobId job \<notin> set (frameIds m)"
    and x: "withTimeout x = Rejected msg" and a: "retryAttempts (config m) \<le> a"
  shows "attemptSettled now \<lparr>fjob = job, attempt = a, lastError = le, awaiting = AwaitAttempt\<rparr> x
         (callProcessor job a le m)
    = processNext now (failJob now job (Some msg)
        (m\<lparr>effects := effects m @
            [CallProcessor (jobId job) a, SetTimeout (jobId job) (jobTimeout (config m))]\<rparr>))"
proof -
  let ?f = "\<lparr>fjob = job, attempt = a, lastError = le, awaiting = AwaitAttempt\<rparr>"
  have nf: "?f \<notin> set (suspended m)"
    using fresh by (simp add: frame_not_suspended)
  show ?thesis
    using x nf a
    by (simp add: attemptSettled_def callProcessor_def Let_def remove1_append_last
        executeJob_from_def)
qed

lemma frameOf_callProcessor:
  "jobId job \<notin> set (frameIds m)
     \<Longrightarrow> frameOf (jobId job) (callProcessor job a le m)
       = Some \<lparr>fjob = job, attempt = a, lastError = le, awaiting = AwaitAttempt\<rparr>"
  using frameOf_last [of "\<lparr>fjob = job, attempt = a, lastError = le, awaiting = AwaitAttempt\<rparr>" m]
  by (simp add: callProcessor_def)

lemma retries_append:
  "retries c j a (xs @ ys) = retries c j a xs @ retries c j (a + length xs) ys"
  by (induction xs arbitrary: a) simp_all

lemma drive_retries:
  assumes "jobId job \<notin> set (frameIds m)"
    and "map withTimeout xs = map Rejected msgs"
    and "a + length msgs \<le> retryAttempts (config m)"
  shows "drive now (jobId job) (xs @ ys) (callProcessor job a le m)
    = drive now (jobId job) ys
        (callProcessor job (a + length msgs) (if msgs = [] then le else Some (last msgs))
           (m\<lparr>effects := effects m @ retries (config m) (jobId job) a msgs\<rparr>))"
  using assms
proof (induction msgs arbitrary: xs a le m)
  case Nil
  then show ?case by simp
next
  case (Cons msg msgs)
  from Cons.prems(2) obtain x xs' where xs: "xs = x # xs'" and x: "withTimeout x = Rejected msg"
    and xs': "map withTimeout xs' = map Rejected msgs"
    by (cases xs) auto
  have a: "a < retryAttempts (config m)" using Cons.prems(3) by simp
  let ?m = "m\<lparr>effects := effects m @ retries (config m) (jobId job) a [msg]\<rparr>"
  have fresh': "jobId job \<notin> set (frameIds ?m)"
    using Cons.prems(1) by (simp add: frameIds_def)
  have len: "Suc a + length msgs \<le> retryAttempts (config ?m)"
    using Cons.prems(3) by simp
  have "drive now (jobId job) (xs @ ys) (callProcessor job a le m)
      = drive now (jobId job) (xs' @ ys) (callProcessor job (Suc a) (Some msg) ?m)"
    using frameOf_callProcessor [OF Cons.prems(1), of a le]
      attempt_fails_retry [OF Cons.prems(1) x a, of now le]
    by (simp add: xs)
  also have "\<dots> = drive now (jobId job) ys
        (callProcessor job (Suc a + length msgs) (if msgs = [] then Some msg else Some (last msgs))
           (?m\<lparr>effects := effects ?m @ retries (config ?m) (jobId job) (Suc a) msgs\<rparr>))"
    by (rule Cons.IH [OF fresh' xs' len])
  finally show ?case by simp
qed

lemma callsOf_simps [simp]:
  "callsOf [] = []" "callsOf (e # es) = callOf e @ callsOf es"
  "callsOf (es @ es') = callsOf es @ callsOf es'"
  by (simp_all add: callsOf_def)

lemma sleepsOf_simps [simp]:
  "sleepsOf [] = []" "sleepsOf (e # es) = sleepOf e @ sleepsOf es"
  "sleepsOf (es @ es') = sleepsOf es @ sleepsOf es'"
  by (simp_all add: sleepsOf_def)

lemma eventsOf_simps [simp]:
  "eventsOf [] = []" "eventsOf (e # es) = eventOf e @ eventsOf es"
  "eventsOf (es @ es') = eventsOf es @ eventsOf es'"
  by (simp_all add: eventsOf_def)

lemma settlementsOf_simps [simp]:
  "settlementsOf [] = []" "settlementsOf (e # es) = settlementOf e @ settlementsOf es"
  "settlementsOf (es @ es') = settlementsOf es @ settlementsOf es'"
  by (simp_all add: settlementsOf_def)

lemma callsOf_retries:
  "callsOf (retries c j a msgs) = map (Pair j) [a..<a + length msgs]"
  by (induction msgs arbitrary: a) (simp_all add: upt_rec)

lemma sleepsOf_retries:
  "sleepsOf (retries c j a msgs) = map2 (retryDelayFor c) [a..<a + length msgs] msgs"
proof (induction msgs arbitrary: a)
  case Nil
  show ?case by simp
next
  case (Cons msg msgs)
  have "[a..<a + length (msg # msgs)] = a # [Suc a..<Suc a + length msgs]"
    by (simp add: upt_rec)
  then show ?case using Cons.IH [of "Suc a"] by simp
qed

lemma eventsOf_retries [simp]: "eventsOf (retries c j a msgs) = []"
  by (induction msgs arbitrary: a) simp_all

lemma settlementsOf_retries [simp]: "settlementsOf (retries c j a msgs) = []"
  by (induction msgs arbitrary: a) simp_all

lemma suspended_dispatch:
  "\<exists>fs. suspended (dispatch now job rest m) = suspended m @ fs
     \<and> (\<forall>f \<in> set fs. awaiting f = AwaitAttempt)"
  by (simp add: dispatch_def Let_def executeJob_inLoop_def callProcessor_def failJob_def)

lemma suspended_processNext:
  "\<exists>fs. suspended (processNext now m) = suspended m @ fs
     \<and> (\<forall>f \<in> set fs. awaiting f = AwaitAttempt)"
proof (rule processNext_rule [where P = "\<lambda>m'. \<exists>fs. suspended m' = suspended m @ fs
     \<and> (\<forall>f \<in> set fs. awaiting f = AwaitAttempt)"])
  show "\<exists>fs. suspended m = suspended m @ fs \<and> (\<forall>f \<in> set fs. awaiting f = AwaitAttempt)"
    by simp
  show "\<exists>fs. suspended (m'\<lparr>isProcessing := b\<rparr>) = suspended m @ fs
      \<and> (\<forall>f \<in> set fs. awaiting f = AwaitAttempt)"
    if "\<exists>fs. suspended m' = suspended m @ fs \<and> (\<forall>f \<in> set fs. awaiting f = AwaitAttempt)"
    for m' b
    using that by simp
  show "\<exists>fs. suspended (dispatch now job rest m') = suspended m @ fs
      \<and> (\<forall>f \<in> set fs. awaiting f = AwaitAttempt)"
    if "\<exists>fs. suspended m' = suspended m @ fs \<and> (\<forall>f \<in> set fs. awaiting f = AwaitAttempt)"
    for job rest m'
  proof -
    from that obtain fs where fs: "suspended m' = suspended m @ fs"
      "\<forall>f \<in> set fs. awaiting f = AwaitAttempt" by blast
    from suspended_dispatch [of now job rest m'] obtain gs where
      gs: "suspended (dispatch now job rest m') = suspended m' @ gs"
      "\<forall>f \<in> set gs. awaiting f = AwaitAttempt" by blast
    have "suspended (dispatch now job rest m') = suspended m @ (fs @ gs)"
      using fs(1) gs(1) by simp
    moreover have "\<forall>f \<in> set (fs @ gs). awaiting f = AwaitAttempt"
      using fs(2) gs(2) by auto
    ultimately show ?thesis by blast
  qed
qed

lemma find_append_None: "find P xs = None \<Longrightarrow> find P (xs @ ys) = find P ys"
  by (induction xs) (auto split: if_splits)

lemma wake_processNext:
  assumes "jobId job \<notin> set (frameIds m)"
  shows "wake now' (jobId job) (processNext now m) = processNext now m"
proof -
  from suspended_processNext [of now m] obtain fs where
    fs: "suspended (processNext now m) = suspended m @ fs"
    "\<forall>f \<in> set fs. awaiting f = AwaitAttempt" by blast
  have "find (\<lambda>f. jobId (fjob f) = jobId job) (suspended m) = None"
    using assms frameId_in [of _ m] by (fastforce simp: find_None_iff)
  then have e: "frameOf (jobId job) (processNext now m) = find (\<lambda>f. jobId (fjob f) = jobId job) fs"
    by (simp add: frameOf_def fs(1) find_append_None)
  show ?thesis
  proof (cases "find (\<lambda>f. jobId (fjob f) = jobId job) fs")
    case None
    then show ?thesis using e by (simp add: wake_def)
  next
    case (Some f)
    then have "f \<in> set fs" by (auto simp: find_Some_iff in_set_conv_nth)
    then have "awaiting f = AwaitAttempt" using fs(2) by blast
    then show ?thesis using e Some by (simp add: wake_def)
  qed
qed

lemma drive_last_attempt:
  assumes fresh: "jobId job \<notin> set (frameIds m)"
  shows "drive now (jobId job) [x] (callProcessor job a le m)
    = wake now (jobId job)
        (attemptSettled now \<lparr>fjob = job, attempt = a, lastError = le, awaiting = AwaitAttempt\<rparr> x
           (callProcessor job a le m))"
  using frameOf_callProcessor [OF fresh, of a le] by simp

lemma run_succeeds:
  assumes fresh: "jobId job \<notin> set (frameIds m)"
    and fails: "map withTimeout xs = map Rejected msgs"
    and ok: "withTimeout x = Fulfilled r"
    and k: "length msgs < retryAttempts (config m)"
  shows "runJob now job (xs @ [x]) m =
      processNext now
        (m\<lparr>processing := AList.delete (jobId job) (processing m),
           effects := effects m @ retries (config m) (jobId job) 1 msgs @
             [CallProcessor (jobId job) (length msgs + 1),
              SetTimeout (jobId job) (jobTimeout (config m)),
              Emit (jobCompleted (jobId job) r), Resolve (jobId job) r],
           terminal := terminal m @
             [job\<lparr>status := Completed, completedAt := Some now, result := Some r\<rparr>]\<rparr>)"
proof -
  let ?le = "if msgs = [] then None else Some (last msgs)"
  let ?m = "m\<lparr>effects := effects m @ retries (config m) (jobId job) 1 msgs\<rparr>"
  have fresh': "jobId job \<notin> set (frameIds ?m)"
    using fresh by (simp add: frameIds_def)
  have len: "1 + length msgs \<le> retryAttempts (config m)" using k by simp
  have one: "1 \<le> retryAttempts (config m)" using k by simp
  have "runJob now job (xs @ [x]) m
      = drive now (jobId job) (xs @ [x]) (callProcessor job 1 None m)"
    using one by (simp add: runJob_def executeJob_def executeJob_from_def)
  also have "\<dots> = drive now (jobId job) [x] (callProcessor job (1 + length msgs) ?le ?m)"
    by (rule drive_retries [OF fresh fails len])
  also have "\<dots> = wake now (jobId job)
      (attemptSettled now \<lparr>fjob = job, attempt = 1 + length msgs, lastError = ?le,
          awaiting = AwaitAttempt\<rparr> x (callProcessor job (1 + length msgs) ?le ?m))"
    by (rule drive_last_attempt [OF fresh'])
  also have "\<dots> = wake now (jobId job) (processNext now (completeJob now job r
        (?m\<lparr>effects := effects ?m @
            [CallProcessor (jobId job) (1 + length msgs),
             SetTimeout (jobId job) (jobTimeout (config ?m))]\<rparr>)))"
    by (simp only: attempt_succeeds [OF fresh' ok])
  also have "\<dots> = processNext now (completeJob now job r
        (?m\<lparr>effects := effects ?m @
            [CallProcessor (jobId job) (1 + length msgs),
             SetTimeout (jobId job) (jobTimeout (config ?m))]\<rparr>))"
    by (rule wake_processNext) (use fresh in \<open>simp add: frameIds_def completeJob_def\<close>)
  finally show ?thesis by (simp add: completeJob_def)
qed

lemma run_exhausts:
  assumes fresh: "jobId job \<notin> set (frameIds m)"
    and fails: "map withTimeout xs = map Rejected msgs"
    and n: "length msgs = retryAttempts (config m)"
  shows "runJob now job xs m =
      processNext now
        (m\<lparr>processing := AList.delete (jobId job) (processing m),
           effects := effects m @ retries (config m) (jobId job) 1 (butlast msgs) @
             (if msgs = [] then []
              else [CallProcessor (jobId job) (length msgs),
                    SetTimeout (jobId job) (jobTimeout (config m))]) @
             [Emit (jobFailed (jobId job)
                (if msgs = [] \<or> last msgs = [] then unknownErrorMessage else last msgs)),
              Reject (jobId job) (if msgs = [] then processingFailedMessage else last msgs)],
           terminal := terminal m @
             [job\<lparr>status := Failed, completedAt := Some now,
                error := Some (if msgs = [] \<or> last msgs = [] then unknownErrorMessage
                               else last msgs)\<rparr>]\<rparr>)"
proof (cases "msgs = []")
  case True
  then have "xs = []" using fails by simp
  then show ?thesis
    using True n
    by (simp add: runJob_def executeJob_def executeJob_from_def failJob_def errorText_def
        rejectionOf_def)
next
  case False
  then have xs_ne: "xs \<noteq> []" using fails by auto
  define xs0 x msgs0 msg where "xs0 = butlast xs" and "x = last xs"
    and "msgs0 = butlast msgs" and "msg = last msgs"
  have xs: "xs = xs0 @ [x]" and msgs: "msgs = msgs0 @ [msg]"
    using xs_ne False by (simp_all add: xs0_def x_def msgs0_def msg_def)
  have fails0: "map withTimeout xs0 = map Rejected msgs0"
    unfolding xs0_def msgs0_def by (simp only: map_butlast fails)
  have "withTimeout (last xs) = last (map withTimeout xs)"
    using xs_ne by (simp add: last_map)
  also have "\<dots> = last (map Rejected msgs)" by (simp only: fails)
  also have "\<dots> = Rejected (last msgs)" using False by (simp add: last_map)
  finally have x: "withTimeout x = Rejected msg"
    by (simp only: x_def msg_def)
  let ?le = "if msgs0 = [] then None else Some (last msgs0)"
  let ?m = "m\<lparr>effects := effects m @ retries (config m) (jobId job) 1 msgs0\<rparr>"
  have fresh': "jobId job \<notin> set (frameIds ?m)"
    using fresh by (simp add: frameIds_def)
  have len: "1 + length msgs0 \<le> retryAttempts (config m)" using n msgs by simp
  have last: "retryAttempts (config ?m) \<le> 1 + length msgs0" using n msgs by simp
  have one: "1 \<le> retryAttempts (config m)" using n msgs by simp
  have "runJob now job xs m
      = drive now (jobId job) (xs0 @ [x]) (callProcessor job 1 None m)"
    using one by (simp add: runJob_def executeJob_def executeJob_from_def xs)
  also have "\<dots> = drive now (jobId job) [x] (callProcessor job (1 + length msgs0) ?le ?m)"
    by (rule drive_retries [OF fresh fails0 len])
  also have "\<dots> = wake now (jobId job)
      (attemptSettled now \<lparr>fjob = job, attempt = 1 + length msgs0, lastError = ?le,
          awaiting = AwaitAttempt\<rparr> x (callProcessor job (1 + length msgs0) ?le ?m))"
    by (rule drive_last_attempt [OF fresh'])
  also have "\<dots> = wake now (jobId job) (processNext now (failJob now job (Some msg)
        (?m\<lparr>effects := effects ?m @
            [CallProcessor (jobId job) (1 + length msgs0),
             SetTimeout (jobId job) (jobTimeout (config ?m))]\<rparr>)))"
    by (simp only: attempt_fails_last [OF fresh' x last])
  also have "\<dots> = processNext now (failJob now job (Some msg)
        (?m\<lparr>effects := effects ?m @
            [CallProcessor (jobId job) (1 + length msgs0),
             SetTimeout (jobId job) (jobTimeout (config ?m))]\<rparr>))"
    by (rule wake_processNext) (use fresh in \<open>simp add: frameIds_def failJob_def\<close>)
  finally show ?thesis
    using False by (simp add: failJob_def errorText_def rejectionOf_def msgs)
qed

section \<open>A dispatch pass as a whole\<close>

lemma map_updatePositions_insensitive:
  assumes "\<And>job p. g (job\<lparr>position := p\<rparr>) = g job"
  shows "map g (updatePositions q) = map g q"
proof -
  have "map g (updatePositions q) = map (\<lambda>p. g (snd p)) (enumerate 0 q)"
    by (simp add: updatePositions_def case_prod_unfold comp_def assms)
  then show ?thesis by (simp add: map_snd_enumerate_comp)
qed

lemma map_claimed_updatePositions [simp]:
  "map (claimed now) (updatePositions q) = map (claimed now) q"
  by (rule map_updatePositions_insensitive) (simp add: claimed_def)

lemma renumber_cong:
  "map (\<lambda>job. job\<lparr>position := 0\<rparr>) xs = map (\<lambda>job. job\<lparr>position := 0\<rparr>) ys
     \<Longrightarrow> map (\<lambda>(i, job). job\<lparr>position := i + 1\<rparr>) (enumerate n xs)
       = map (\<lambda>(i, job). job\<lparr>position := i + 1\<rparr>) (enumerate n ys)"
proof (induction xs arbitrary: ys n)
  case Nil
  then show ?case by simp
next
  case (Cons x xs)
  then obtain y ys' where ys: "ys = y # ys'" and xy: "x\<lparr>position := 0\<rparr> = y\<lparr>position := 0\<rparr>"
    and rest: "map (\<lambda>job. job\<lparr>position := 0\<rparr>) xs = map (\<lambda>job. job\<lparr>position := 0\<rparr>) ys'"
    by (cases ys) auto
  have "x\<lparr>position := Suc n\<rparr> = (x\<lparr>position := 0\<rparr>)\<lparr>position := Suc n\<rparr>" by simp
  also have "\<dots> = (y\<lparr>position := 0\<rparr>)\<lparr>position := Suc n\<rparr>" by (simp only: xy)
  also have "\<dots> = y\<lparr>position := Suc n\<rparr>" by simp
  finally show ?case using Cons.IH [OF rest, of "Suc n"] by (simp add: ys)
qed

lemma updatePositions_drop:
  "updatePositions (drop n (updatePositions q)) = updatePositions (drop n q)"
proof -
  have "map (\<lambda>job. job\<lparr>position := 0\<rparr>) (updatePositions q) = map (\<lambda>job. job\<lparr>position := 0\<rparr>) q"
    by (rule map_updatePositions_insensitive) simp
  then have "map (\<lambda>job. job\<lparr>position := 0\<rparr>) (drop n (updatePositions q))
      = map (\<lambda>job. job\<lparr>position := 0\<rparr>) (drop n q)"
    by (simp only: drop_map [symmetric])
  then show ?thesis unfolding updatePositions_def by (rule renumber_cong)
qed

lemma updatePositions_inOrder:
  assumes "positionsInOrder q"
  shows "updatePositions q = q"
proof (rule nth_equalityI)
  show "length (updatePositions q) = length q" by simp
  fix i assume "i < length (updatePositions q)"
  then have i: "i < length q" by simp
  have "position (q ! i) = map position q ! i" using i by simp
  also have "\<dots> = [1..<length q + 1] ! i" using assms by (simp add: positionsInOrder_def)
  also have "\<dots> = i + 1" using i by (simp add: nth_upt del: upt_Suc)
  finally have p: "position (q ! i) = i + 1" .
  have "updatePositions q ! i = (q ! i)\<lparr>position := i + 1\<rparr>"
    using i by (simp add: updatePositions_def nth_enumerate_eq)
  then show "updatePositions q ! i = q ! i" using p by simp
qed

lemma positionsInOrder_head: "positionsInOrder (job # rest) \<Longrightarrow> position job = 1"
  by (simp add: positionsInOrder_def upt_rec)

lemma positionsInOrder_updatePositions [simp]: "positionsInOrder (updatePositions q)"
  by (simp add: positionsInOrder_def map_position_updatePositions)

lemma map_entry_updatePositions [simp]:
  "map (\<lambda>job. (jobId job, claimed now job)) (updatePositions q)
     = map (\<lambda>job. (jobId job, claimed now job)) q"
  by (rule map_updatePositions_insensitive) (simp add: claimed_def)

lemma map_frame_updatePositions [simp]:
  "map (\<lambda>job. \<lparr>fjob = claimed now job, attempt = a, lastError = le, awaiting = w\<rparr>)
       (updatePositions q)
     = map (\<lambda>job. \<lparr>fjob = claimed now job, attempt = a, lastError = le, awaiting = w\<rparr>) q"
  by (rule map_updatePositions_insensitive) (simp add: claimed_def)

lemma claimed_head:
  "position job = 1 \<Longrightarrow> job\<lparr>status := Processing, startedAt := Some now\<rparr> = claimed now job"
  by (simp add: claimed_def)

lemma dispatched_0: "positionsInOrder (queue m) \<Longrightarrow> dispatched now 0 m = m"
  by (simp add: dispatched_def updatePositions_inOrder)

lemma dispatched_Suc:
  assumes q: "queue m = job # rest" and p: "position job = 1"
    and fresh: "jobId job \<notin> set (map fst (processing m))"
    and n: "1 \<le> retryAttempts (config m)"
  shows "dispatched now k (dispatch now job rest m) = dispatched now (Suc k) m"
  unfolding dispatch_retrying [OF fresh n]
  using q by (simp add: dispatched_def claimed_head [OF p] updatePositions_drop take_map [symmetric])

lemma loop_closed:
  assumes "1 \<le> retryAttempts (config m)"
    and "distinct (map jobId (queue m) @ map fst (processing m))"
    and "positionsInOrder (queue m)"
  shows "processNext_loop now m = dispatched now (dispatchCount m) m"
  using assms
proof (induction "length (queue m)" arbitrary: m)
  case 0
  then have "queue m = []" by simp
  then show ?case
    using "0.prems"(3)
    by (simp add: processNext_loop_stop dispatchCount_def dispatched_0)
next
  case (Suc n)
  then obtain job rest where q: "queue m = job # rest" by (cases "queue m") auto
  show ?case
  proof (cases "length (processing m) < slots (config m)")
    case False
    then have "dispatchCount m = 0" by (simp add: dispatchCount_def)
    then show ?thesis
      using False Suc.prems(3) by (simp add: processNext_loop_stop dispatched_0)
  next
    case True
    let ?m = "dispatch now job rest m"
    have fresh: "jobId job \<notin> set (map fst (processing m))"
      using Suc.prems(2) q by auto
    have p: "position job = 1"
      using Suc.prems(3) q by (simp add: positionsInOrder_head)
    note e = dispatch_retrying [OF fresh Suc.prems(1), of now rest]
    have len: "n = length (queue ?m)" using Suc.hyps(2) q by simp
    have n1: "1 \<le> retryAttempts (config ?m)" using Suc.prems(1) by simp
    have d: "distinct (map jobId (queue ?m) @ map fst (processing ?m))"
      unfolding e using Suc.prems(2) q by auto
    have o: "positionsInOrder (queue ?m)" by simp
    have c: "dispatchCount m = Suc (dispatchCount ?m)"
      unfolding e using True q by (simp add: dispatchCount_def)
    have "processNext_loop now m = processNext_loop now ?m"
      by (rule processNext_loop_step [OF q True])
    also have "\<dots> = dispatched now (dispatchCount ?m) ?m"
      by (rule Suc.hyps(1) [OF len n1 d o])
    also have "\<dots> = dispatched now (Suc (dispatchCount ?m)) m"
      by (rule dispatched_Suc [OF q p fresh Suc.prems(1)])
    finally show ?thesis by (simp only: c)
  qed
qed

lemma map_failed_updatePositions [simp]:
  "map (\<lambda>job. (claimed now job)\<lparr>status := Failed, completedAt := Some now,
                        error := Some unknownErrorMessage\<rparr>) (updatePositions q)
     = map (\<lambda>job. (claimed now job)\<lparr>status := Failed, completedAt := Some now,
                        error := Some unknownErrorMessage\<rparr>) q"
  by (rule map_updatePositions_insensitive) (simp add: claimed_def)

lemma drained_step:
  assumes q: "queue m = job # rest" and p: "position job = 1"
    and fresh: "jobId job \<notin> set (map fst (processing m))"
    and n: "retryAttempts (config m) = 0"
  shows "drained now (dispatch now job rest m) = drained now m"
proof -
  have h: "job\<lparr>status := Failed, startedAt := Some now, completedAt := Some now,
        error := Some unknownErrorMessage\<rparr>
      = (claimed now job)\<lparr>status := Failed, completedAt := Some now,
        error := Some unknownErrorMessage\<rparr>"
    using p by (simp add: claimed_def)
  show ?thesis
    unfolding dispatch_no_attempts [OF fresh n]
    using q by (simp add: drained_def h)
qed

lemma loop_closed_no_attempts:
  assumes "retryAttempts (config m) = 0"
    and "distinct (map jobId (queue m) @ map fst (processing m))"
    and "positionsInOrder (queue m)"
    and "length (processing m) < slots (config m)"
  shows "processNext_loop now m = drained now m"
  using assms
proof (induction "length (queue m)" arbitrary: m)
  case 0
  then have "queue m = []" by simp
  then show ?case by (simp add: processNext_loop_stop drained_def)
next
  case (Suc n)
  then obtain job rest where q: "queue m = job # rest" by (cases "queue m") auto
  let ?m = "dispatch now job rest m"
  have fresh: "jobId job \<notin> set (map fst (processing m))"
    using Suc.prems(2) q by auto
  have p: "position job = 1"
    using Suc.prems(3) q by (simp add: positionsInOrder_head)
  note e = dispatch_no_attempts [OF fresh Suc.prems(1), of now rest]
  have len: "n = length (queue ?m)" using Suc.hyps(2) q by simp
  have n0: "retryAttempts (config ?m) = 0" using Suc.prems(1) by simp
  have d: "distinct (map jobId (queue ?m) @ map fst (processing ?m))"
    unfolding e using Suc.prems(2) q by auto
  have o: "positionsInOrder (queue ?m)" by simp
  have lt: "length (processing ?m) < slots (config ?m)"
    unfolding e using Suc.prems(4) by simp
  have "processNext_loop now m = processNext_loop now ?m"
    by (rule processNext_loop_step [OF q Suc.prems(4)])
  also have "\<dots> = drained now ?m"
    by (rule Suc.hyps(1) [OF len n0 d o lt])
  also have "\<dots> = drained now m"
    by (rule drained_step [OF q p fresh Suc.prems(1)])
  finally show ?case .
qed

lemma isProcessing_dispatched [simp]: "isProcessing (dispatched now k m) = isProcessing m"
  by (simp add: dispatched_def)

lemma isProcessing_drained [simp]: "isProcessing (drained now m) = isProcessing m"
  by (simp add: drained_def)

lemma processNext_closed:
  assumes idle: "\<not> isProcessing m"
    and d: "distinct (map jobId (queue m) @ map fst (processing m))"
    and o: "positionsInOrder (queue m)"
  shows "1 \<le> retryAttempts (config m) \<Longrightarrow> processNext now m = dispatched now (dispatchCount m) m"
    and "retryAttempts (config m) = 0 \<Longrightarrow> length (processing m) < slots (config m)
           \<Longrightarrow> processNext now m = drained now m"
    and "retryAttempts (config m) = 0 \<Longrightarrow> \<not> length (processing m) < slots (config m)
           \<Longrightarrow> processNext now m = m"
proof -
  let ?m = "m\<lparr>isProcessing := True\<rparr>"
  show "processNext now m = dispatched now (dispatchCount m) m" if "1 \<le> retryAttempts (config m)"
  proof -
    have "processNext_loop now ?m = dispatched now (dispatchCount ?m) ?m"
      by (rule loop_closed) (use that d o in simp_all)
    then show ?thesis
      using idle by (simp add: processNext_def dispatched_def dispatchCount_def)
  qed
  show "processNext now m = drained now m"
    if "retryAttempts (config m) = 0" "length (processing m) < slots (config m)"
  proof -
    have "processNext_loop now ?m = drained now ?m"
      by (rule loop_closed_no_attempts) (use that d o in simp_all)
    then show ?thesis
      using idle by (simp add: processNext_def drained_def)
  qed
  show "processNext now m = m"
    if "retryAttempts (config m) = 0" "\<not> length (processing m) < slots (config m)"
    using that idle by (simp add: processNext_def processNext_loop_stop)
qed

section \<open>Runs that exhaust the attempts and runs that succeed\<close>

lemma length_sleepsOf_retries: "length (sleepsOf (retries c j a msgs)) = length msgs"
  by (induction msgs arbitrary: a) simp_all

text \<open>
  C6, as stated, fails: the completion channel is not always rejected with the error that is
  recorded in the job. When the only attempt fails with an error whose message is empty, the
  job records the generic "unknown error" message, but the channel is rejected with the error
  of the attempt, whose message is empty. When no attempt is allowed, the job records the
  "unknown error" message and the channel is rejected with another generic error,
  "processing failed".
\<close>

theorem rejection_differs_counterexample:
  "retryAttempts (config scenarioEmptyMessage) = 1
   \<and> callsOf (effects scenarioEmptyMessage) = [((1, 1), 1)]
   \<and> map status (terminal scenarioEmptyMessage) = [Failed]
   \<and> map error (terminal scenarioEmptyMessage) = [Some unknownErrorMessage]
   \<and> settlementsOf (effects scenarioEmptyMessage) = [Reject (1, 1) []]
   \<and> unknownErrorMessage \<noteq> []
   \<and> retryAttempts (config scenarioNoAttempts) = 0
   \<and> callsOf (effects scenarioNoAttempts) = []
   \<and> map status (terminal scenarioNoAttempts) = [Failed]
   \<and> map error (terminal scenarioNoAttempts) = [Some unknownErrorMessage]
   \<and> settlementsOf (effects scenarioNoAttempts) = [Reject (1, 1) processingFailedMessage]
   \<and> unknownErrorMessage \<noteq> processingFailedMessage"
proof -
  have e: "retryAttempts (config scenarioEmptyMessage) = 1"
    "callsOf (effects scenarioEmptyMessage) = [((1, 1), 1)]"
    "map status (terminal scenarioEmptyMessage) = [Failed]"
    "map error (terminal scenarioEmptyMessage) = [Some unknownErrorMessage]"
    "settlementsOf (effects scenarioEmptyMessage) = [Reject (1, 1) []]"
    by (simp_all add: scenarioEmptyMessage_def scenarioOneAttempt_def scenarioOneAttempt_config_def
        eval_defs errorText_def rejectionOf_def)
  have n: "retryAttempts (config scenarioNoAttempts) = 0"
    "callsOf (effects scenarioNoAttempts) = []"
    "map status (terminal scenarioNoAttempts) = [Failed]"
    "map error (terminal scenarioNoAttempts) = [Some unknownErrorMessage]"
    "settlementsOf (effects scenarioNoAttempts) = [Reject (1, 1) processingFailedMessage]"
    by (simp_all add: scenarioNoAttempts_def scenarioNoAttempts_config_def eval_defs
        errorText_def rejectionOf_def)
  have d: "unknownErrorMessage \<noteq> []" "unknownErrorMessage \<noteq> processingFailedMessage"
    by (simp_all add: unknownErrorMessage_def processingFailedMessage_def)
  show ?thesis by (intro conjI e n d)
qed

text \<open>
  C6, amended. When every attempt of a job fails, as many attempts as \<open>retryAttempts\<close>
  allows, the run of \<open>executeJob\<close> calls the processor with the attempt numbers 1 to
  \<open>retryAttempts\<close> and no further, sleeps the backoff delay after each attempt but the last,
  and then takes the failure path: the job record gets the status failed, \<open>completedAt\<close>
  and, as \<open>error\<close>, the message of the last failure, or the generic "unknown error" message
  when that message is empty or no attempt was made; the completion channel is rejected, once,
  with the error of the last failure itself, whatever its message, or with the generic
  "processing failed" error when no attempt was made; the entry of the active set is deleted;
  one \<open>jobFailed\<close> event, with the recorded message, and no other event is emitted; and
  \<open>processNext\<close> is called. Here \<open>msgs\<close> are the messages of the failures, \<open>err\<close> is the
  recorded message and \<open>rej\<close> the message of the error that the channel is rejected with.
\<close>

theorem executeJob_all_attempts_fail:
  assumes "jobId job \<notin> set (frameIds m)"
    and "map withTimeout xs = map Rejected msgs"
    and "length msgs = retryAttempts (config m)"
  shows "\<exists>t err rej.
      runJob now job xs m =
        processNext now
          (m\<lparr>processing := AList.delete (jobId job) (processing m),
             effects := effects m @ t,
             terminal := terminal m @
               [job\<lparr>status := Failed, completedAt := Some now, error := Some err\<rparr>]\<rparr>)
    \<and> err = (if msgs = [] \<or> last msgs = [] then unknownErrorMessage else last msgs)
    \<and> rej = (if msgs = [] then processingFailedMessage else last msgs)
    \<and> t = retries (config m) (jobId job) 1 (butlast msgs) @
          (if msgs = [] then []
           else [CallProcessor (jobId job) (length msgs),
                 SetTimeout (jobId job) (jobTimeout (config m))]) @
          [Emit (jobFailed (jobId job) err), Reject (jobId job) rej]
    \<and> callsOf t = map (Pair (jobId job)) [1..<retryAttempts (config m) + 1]
    \<and> sleepsOf t = map2 (retryDelayFor (config m)) [1..<retryAttempts (config m)] (butlast msgs)
    \<and> eventsOf t = [jobFailed (jobId job) err]
    \<and> settlementsOf t = [Reject (jobId job) rej]"
proof -
  let ?err = "if msgs = [] \<or> last msgs = [] then unknownErrorMessage else last msgs"
  let ?rej = "if msgs = [] then processingFailedMessage else last msgs"
  let ?t = "retries (config m) (jobId job) 1 (butlast msgs) @
          (if msgs = [] then []
           else [CallProcessor (jobId job) (length msgs),
                 SetTimeout (jobId job) (jobTimeout (config m))]) @
          [Emit (jobFailed (jobId job) ?err), Reject (jobId job) ?rej]"
  have run: "runJob now job xs m =
        processNext now
          (m\<lparr>processing := AList.delete (jobId job) (processing m),
             effects := effects m @ ?t,
             terminal := terminal m @
               [job\<lparr>status := Failed, completedAt := Some now, error := Some ?err\<rparr>]\<rparr>)"
    using run_exhausts [OF assms, of now] by simp
  have calls: "callsOf ?t = map (Pair (jobId job)) [1..<retryAttempts (config m) + 1]"
  proof (cases "msgs = []")
    case True
    then show ?thesis using assms(3) by simp
  next
    case False
    then have "length msgs = Suc (length (butlast msgs))" by simp
    then show ?thesis
      using False assms(3) by (simp add: callsOf_retries)
  qed
  have sleeps: "sleepsOf ?t
      = map2 (retryDelayFor (config m)) [1..<retryAttempts (config m)] (butlast msgs)"
  proof (cases "msgs = []")
    case True
    then show ?thesis by simp
  next
    case False
    then have "length msgs = Suc (length (butlast msgs))" by simp
    then show ?thesis
      using False assms(3) by (simp add: sleepsOf_retries)
  qed
  have events: "eventsOf ?t = [jobFailed (jobId job) ?err]" by simp
  have settle: "settlementsOf ?t = [Reject (jobId job) ?rej]" by simp
  show ?thesis
    using run calls sleeps events settle by blast
qed

text \<open>
  C7. When the attempts 1 to \<open>k - 1\<close> of a job fail and attempt \<open>k\<close> succeeds, \<open>k\<close> being at
  most \<open>retryAttempts\<close>, the run of \<open>executeJob\<close> calls the processor with the attempt
  numbers 1 to \<open>k\<close>, sleeps \<open>k - 1\<close> backoff delays, one after each failed attempt and none
  after the successful one, stores the result in the job record with the status completed
  and \<open>completedAt\<close>, deletes the entry of the active set, emits one \<open>jobCompleted\<close> event
  and no \<open>jobFailed\<close> event, fulfils the completion channel, once, with the result, and calls
  \<open>processNext\<close>. Here \<open>msgs\<close> are the messages of the \<open>k - 1\<close> failures.
\<close>

theorem executeJob_succeeds_on_attempt:
  assumes "jobId job \<notin> set (frameIds m)"
    and "map withTimeout xs = map Rejected msgs"
    and "withTimeout x = Fulfilled r"
    and "length msgs < retryAttempts (config m)"
  shows "\<exists>t.
      runJob now job (xs @ [x]) m =
        processNext now
          (m\<lparr>processing := AList.delete (jobId job) (processing m),
             effects := effects m @ t,
             terminal := terminal m @
               [job\<lparr>status := Completed, completedAt := Some now, result := Some r\<rparr>]\<rparr>)
    \<and> t = retries (config m) (jobId job) 1 msgs @
          [CallProcessor (jobId job) (length msgs + 1),
           SetTimeout (jobId job) (jobTimeout (config m)),
           Emit (jobCompleted (jobId job) r), Resolve (jobId job) r]
    \<and> callsOf t = map (Pair (jobId job)) [1..<length msgs + 2]
    \<and> sleepsOf t = map2 (retryDelayFor (config m)) [1..<length msgs + 1] msgs
    \<and> length (sleepsOf t) = length msgs
    \<and> eventsOf t = [jobCompleted (jobId job) r]
    \<and> settlementsOf t = [Resolve (jobId job) r]"
proof -
  let ?t = "retries (config m) (jobId job) 1 msgs @
          [CallProcessor (jobId job) (length msgs + 1),
           SetTimeout (jobId job) (jobTimeout (config m)),
           Emit (jobCompleted (jobId job) r), Resolve (jobId job) r]"
  have run: "runJob now job (xs @ [x]) m =
        processNext now
          (m\<lparr>processing := AList.delete (jobId job) (processing m),
             effects := effects m @ ?t,
             terminal := terminal m @
               [job\<lparr>status := Completed, completedAt := Some now, result := Some r\<rparr>]\<rparr>)"
    using run_succeeds [OF assms, of now] by simp
  have calls: "callsOf ?t = map (Pair (jobId job)) [1..<length msgs + 2]"
    by (simp add: callsOf_retries)
  have sleeps: "sleepsOf ?t = map2 (retryDelayFor (config m)) [1..<length msgs + 1] msgs"
    by (simp add: sleepsOf_retries)
  have n: "length (sleepsOf ?t) = length msgs"
    by (simp add: length_sleepsOf_retries)
  have events: "eventsOf ?t = [jobCompleted (jobId job) r]" by simp
  have settle: "settlementsOf ?t = [Resolve (jobId job) r]" by simp
  show ?thesis
    using run calls sleeps n events settle by blast
qed

lemma dispatchingC_facts:
  "\<not> isProcessing dispatchingC" "retryAttempts (config dispatchingC) = 3"
  "retryDelay (config dispatchingC) = 2000" "slots (config dispatchingC) = 2"
  "jobTimeout (config dispatchingC) = 300000"
  "frameIds dispatchingC = [(21, 2)]"
  "jobId jobC = (22, 3)" "map fst (processing dispatchingC) = [(21, 2), (22, 3)]"
  "map jobId (queue dispatchingC) = [(23, 4), (24, 5)]"
  "map position (queue dispatchingC) = [1, 2]"
  "map jobId (terminal dispatchingC) = [(20, 1)]"
  "executeJob 30 jobC dispatchingC = processNext 30 scenarioA_done"
  by (simp_all add: dispatchingC_def jobC_def scenarioA_done_def scenarioA_def scenarioA_config_def
      unframed_def frameIds_def eval_defs)

theorem executeJob_all_attempts_fail_witness:
  "jobId jobC \<notin> set (frameIds dispatchingC)
   \<and> map withTimeout
         [ProcessorFirst (Rejected ''HTTP 429''), ProcessorFirst (Rejected ''boom''),
          TimerFirst None :: nat race]
       = map Rejected [''HTTP 429'', ''boom'', timeoutMessage]
   \<and> length [''HTTP 429'', ''boom'', timeoutMessage] = retryAttempts (config dispatchingC)
   \<and> executeJob 30 jobC dispatchingC = processNext 30 scenarioA_done
   \<and> callsOf (effects (runJob 40 jobC
         [ProcessorFirst (Rejected ''HTTP 429''), ProcessorFirst (Rejected ''boom''), TimerFirst None]
         dispatchingC))
       = callsOf (effects dispatchingC) @ [((22, 3), 1), ((22, 3), 2), ((22, 3), 3), ((23, 4), 1)]
   \<and> sleepsOf (effects (runJob 40 jobC
         [ProcessorFirst (Rejected ''HTTP 429''), ProcessorFirst (Rejected ''boom''), TimerFirst None]
         dispatchingC)) = [4000, 4000]
   \<and> eventsOf (effects (runJob 40 jobC
         [ProcessorFirst (Rejected ''HTTP 429''), ProcessorFirst (Rejected ''boom''), TimerFirst None]
         dispatchingC))
       = eventsOf (effects dispatchingC)
           @ [jobFailed (22, 3) timeoutMessage, jobStarted (23, 4) 2]
   \<and> settlementsOf (effects (runJob 40 jobC
         [ProcessorFirst (Rejected ''HTTP 429''), ProcessorFirst (Rejected ''boom''), TimerFirst None]
         dispatchingC))
       = settlementsOf (effects dispatchingC) @ [Reject (22, 3) timeoutMessage]
   \<and> map fst (processing (runJob 40 jobC
         [ProcessorFirst (Rejected ''HTTP 429''), ProcessorFirst (Rejected ''boom''), TimerFirst None]
         dispatchingC)) = [(21, 2), (23, 4)]
   \<and> map (\<lambda>job. (jobId job, status job, completedAt job, error job)) (terminal (runJob 40 jobC
         [ProcessorFirst (Rejected ''HTTP 429''), ProcessorFirst (Rejected ''boom''), TimerFirst None]
         dispatchingC))
       = [((20, 1), Completed, Some 30, None), ((22, 3), Failed, Some 40, Some timeoutMessage)]"
proof -
  let ?xs = "[ProcessorFirst (Rejected ''HTTP 429''), ProcessorFirst (Rejected ''boom''),
      TimerFirst None] :: nat race list"
  let ?msgs = "[''HTTP 429'', ''boom'', timeoutMessage]"
  let ?run = "runJob 40 jobC ?xs dispatchingC"
  note f = dispatchingC_facts
  have h1: "jobId jobC \<notin> set (frameIds dispatchingC)" by (simp add: f)
  have h2: "map withTimeout ?xs = map Rejected ?msgs" by (simp add: withTimeout_def)
  have h3: "length ?msgs = retryAttempts (config dispatchingC)" by (simp add: f)
  have ne: "timeoutMessage \<noteq> []" by (simp add: timeoutMessage_def)
  have d: "retryDelayFor (config dispatchingC) (Suc 0) ''HTTP 429'' = 4000"
    "retryDelayFor (config dispatchingC) (Suc (Suc 0)) ''boom'' = 4000"
    by (simp_all add: retryDelayFor_def isRateLimited_def f)
  have u: "[Suc 0..<4] = [1, 2, 3]" "[Suc 0..<3] = [Suc 0, Suc (Suc 0)]"
    by (simp_all add: upt_rec)
  from executeJob_all_attempts_fail [OF h1 h2 h3, of 40] obtain t err rej where
    run: "?run =
        processNext 40
          (dispatchingC\<lparr>processing := AList.delete (jobId jobC) (processing dispatchingC),
             effects := effects dispatchingC @ t,
             terminal := terminal dispatchingC @
               [jobC\<lparr>status := Failed, completedAt := Some 40, error := Some err\<rparr>]\<rparr>)"
    and err: "err = (if ?msgs = [] \<or> last ?msgs = [] then unknownErrorMessage else last ?msgs)"
    and rej: "rej = (if ?msgs = [] then processingFailedMessage else last ?msgs)"
    and calls: "callsOf t = map (Pair (jobId jobC)) [1..<retryAttempts (config dispatchingC) + 1]"
    and sleeps: "sleepsOf t = map2 (retryDelayFor (config dispatchingC))
        [1..<retryAttempts (config dispatchingC)] (butlast ?msgs)"
    and events: "eventsOf t = [jobFailed (jobId jobC) err]"
    and settle: "settlementsOf t = [Reject (jobId jobC) rej]"
    by blast
  have err': "err = timeoutMessage" using err ne by simp
  have rej': "rej = timeoutMessage" using rej by simp
  let ?m = "dispatchingC\<lparr>processing := AList.delete (jobId jobC) (processing dispatchingC),
             effects := effects dispatchingC @ t,
             terminal := terminal dispatchingC @
               [jobC\<lparr>status := Failed, completedAt := Some 40, error := Some err\<rparr>]\<rparr>"
  have keys: "map fst (processing ?m) = [(21, 2)]"
    using f(8) by (simp add: f(7) keys_delete)
  have len: "length (processing ?m) = 1" "length (queue ?m) = 2"
    using arg_cong [OF keys, of length] arg_cong [OF f(9), of length] by simp_all
  have p1: "\<not> isProcessing ?m" by (simp add: f)
  have p2: "distinct (map jobId (queue ?m) @ map fst (processing ?m))"
    unfolding keys by (simp add: f)
  have p3: "positionsInOrder (queue ?m)"
    using len(2) by (simp add: positionsInOrder_def f u)
  have p4: "1 \<le> retryAttempts (config ?m)" by (simp add: f)
  have k: "dispatchCount ?m = Suc 0"
    using len by (simp add: dispatchCount_def f)
  have run': "?run = dispatched 40 (Suc 0) ?m"
    unfolding run using processNext_closed(1) [OF p1 p2 p3 p4, of 40] by (simp only: k)
  have tk: "map jobId (take (Suc 0) (queue dispatchingC)) = [(23, 4)]"
    using f(9) by (simp add: take_map [symmetric])
  have c: "callsOf (effects ?run)
      = callsOf (effects dispatchingC) @ [((22, 3), 1), ((22, 3), 2), ((22, 3), 3), ((23, 4), 1)]"
    unfolding run' by (simp add: dispatched_def calls f u tk)
  have s0: "sleepsOf (effects dispatchingC) = []"
    by (simp add: dispatchingC_def scenarioA_done_def scenarioA_def scenarioA_config_def
      unframed_def eval_defs)
  have s: "sleepsOf (effects ?run) = [4000, 4000]"
    unfolding run' by (simp add: dispatched_def sleeps f u d tk s0)
  have e: "eventsOf (effects ?run)
       = eventsOf (effects dispatchingC)
           @ [jobFailed (22, 3) timeoutMessage, jobStarted (23, 4) 2]"
    unfolding run' using len(1) by (simp add: dispatched_def events f err' tk)
  have r: "settlementsOf (effects ?run)
       = settlementsOf (effects dispatchingC) @ [Reject (22, 3) timeoutMessage]"
    unfolding run' by (simp add: dispatched_def settle f rej' tk)
  have p: "map fst (processing ?run) = [(21, 2), (23, 4)]"
    unfolding run' using keys tk by (simp add: dispatched_def comp_def)
  have t0: "map (\<lambda>job. (jobId job, status job, completedAt job, error job)) (terminal dispatchingC)
      = [((20, 1), Completed, Some 30, None)]"
    by (simp add: dispatchingC_def scenarioA_done_def scenarioA_def scenarioA_config_def
      unframed_def eval_defs)
  have t: "map (\<lambda>job. (jobId job, status job, completedAt job, error job)) (terminal ?run)
       = [((20, 1), Completed, Some 30, None), ((22, 3), Failed, Some 40, Some timeoutMessage)]"
    unfolding run' by (simp add: dispatched_def t0 f err')
  show ?thesis by (intro conjI h1 h2 h3 f(12) c s e r p t)
qed

theorem executeJob_succeeds_on_attempt_witness:
  "jobId jobC \<notin> set (frameIds dispatchingC)
   \<and> map withTimeout [ProcessorFirst (Rejected ''HTTP 429''), TimerFirst None :: nat race]
       = map Rejected [''HTTP 429'', timeoutMessage]
   \<and> withTimeout (ProcessorFirst (Fulfilled (9::nat))) = Fulfilled 9
   \<and> length [''HTTP 429'', timeoutMessage] < retryAttempts (config dispatchingC)
   \<and> callsOf (effects (runJob 40 jobC
         [ProcessorFirst (Rejected ''HTTP 429''), TimerFirst None, ProcessorFirst (Fulfilled 9)]
         dispatchingC))
       = callsOf (effects dispatchingC) @ [((22, 3), 1), ((22, 3), 2), ((22, 3), 3), ((23, 4), 1)]
   \<and> sleepsOf (effects (runJob 40 jobC
         [ProcessorFirst (Rejected ''HTTP 429''), TimerFirst None, ProcessorFirst (Fulfilled 9)]
         dispatchingC)) = [4000, 4000]
   \<and> eventsOf (effects (runJob 40 jobC
         [ProcessorFirst (Rejected ''HTTP 429''), TimerFirst None, ProcessorFirst (Fulfilled 9)]
         dispatchingC))
       = eventsOf (effects dispatchingC) @ [jobCompleted (22, 3) 9, jobStarted (23, 4) 2]
   \<and> settlementsOf (effects (runJob 40 jobC
         [ProcessorFirst (Rejected ''HTTP 429''), TimerFirst None, ProcessorFirst (Fulfilled 9)]
         dispatchingC))
       = settlementsOf (effects dispatchingC) @ [Resolve (22, 3) 9]
   \<and> map (\<lambda>job. (jobId job, status job, completedAt job, result job)) (terminal (runJob 40 jobC
         [ProcessorFirst (Rejected ''HTTP 429''), TimerFirst None, ProcessorFirst (Fulfilled 9)]
         dispatchingC))
       = [((20, 1), Completed, Some 30, Some 7), ((22, 3), Completed, Some 40, Some 9)]"
proof -
  let ?xs = "[ProcessorFirst (Rejected ''HTTP 429''), TimerFirst None] :: nat race list"
  let ?x = "ProcessorFirst (Fulfilled 9) :: nat race"
  let ?msgs = "[''HTTP 429'', timeoutMessage]"
  let ?run = "runJob 40 jobC
         [ProcessorFirst (Rejected ''HTTP 429''), TimerFirst None, ProcessorFirst (Fulfilled 9)]
         dispatchingC"
  note f = dispatchingC_facts
  have h1: "jobId jobC \<notin> set (frameIds dispatchingC)" by (simp add: f)
  have h2: "map withTimeout ?xs = map Rejected ?msgs" by (simp add: withTimeout_def)
  have h3: "withTimeout ?x = Fulfilled 9" by (simp add: withTimeout_def)
  have h4: "length ?msgs < retryAttempts (config dispatchingC)" by (simp add: f)
  have d: "retryDelayFor (config dispatchingC) (Suc 0) ''HTTP 429'' = 4000"
    "retryDelayFor (config dispatchingC) (Suc (Suc 0)) timeoutMessage = 4000"
    by (simp_all add: retryDelayFor_def isRateLimited_def f timeoutMessage_def)
  have u: "[Suc 0..<4] = [1, 2, 3]" "[Suc 0..<3] = [Suc 0, Suc (Suc 0)]"
    by (simp_all add: upt_rec)
  from executeJob_succeeds_on_attempt [OF h1 h2 h3 h4, of 40] obtain t where
    run: "runJob 40 jobC (?xs @ [?x]) dispatchingC =
        processNext 40
          (dispatchingC\<lparr>processing := AList.delete (jobId jobC) (processing dispatchingC),
             effects := effects dispatchingC @ t,
             terminal := terminal dispatchingC @
               [jobC\<lparr>status := Completed, completedAt := Some 40, result := Some 9\<rparr>]\<rparr>)"
    and calls: "callsOf t = map (Pair (jobId jobC)) [1..<length ?msgs + 2]"
    and sleeps: "sleepsOf t = map2 (retryDelayFor (config dispatchingC)) [1..<length ?msgs + 1] ?msgs"
    and events: "eventsOf t = [jobCompleted (jobId jobC) 9]"
    and settle: "settlementsOf t = [Resolve (jobId jobC) 9]"
    by blast
  let ?m = "dispatchingC\<lparr>processing := AList.delete (jobId jobC) (processing dispatchingC),
             effects := effects dispatchingC @ t,
             terminal := terminal dispatchingC @
               [jobC\<lparr>status := Completed, completedAt := Some 40, result := Some 9\<rparr>]\<rparr>"
  have keys: "map fst (processing ?m) = [(21, 2)]"
    using f(8) by (simp add: f(7) keys_delete)
  have len: "length (processing ?m) = 1" "length (queue ?m) = 2"
    using arg_cong [OF keys, of length] arg_cong [OF f(9), of length] by simp_all
  have p1: "\<not> isProcessing ?m" by (simp add: f)
  have p2: "distinct (map jobId (queue ?m) @ map fst (processing ?m))"
    unfolding keys by (simp add: f)
  have p3: "positionsInOrder (queue ?m)"
    using len(2) by (simp add: positionsInOrder_def f u)
  have p4: "1 \<le> retryAttempts (config ?m)" by (simp add: f)
  have k: "dispatchCount ?m = Suc 0"
    using len by (simp add: dispatchCount_def f)
  have run': "?run = dispatched 40 (Suc 0) ?m"
    using run processNext_closed(1) [OF p1 p2 p3 p4, of 40] by (simp only: k append.simps)
  have tk: "map jobId (take (Suc 0) (queue dispatchingC)) = [(23, 4)]"
    using f(9) by (simp add: take_map [symmetric])
  have c: "callsOf (effects ?run)
      = callsOf (effects dispatchingC) @ [((22, 3), 1), ((22, 3), 2), ((22, 3), 3), ((23, 4), 1)]"
    unfolding run' by (simp add: dispatched_def calls f u tk)
  have s0: "sleepsOf (effects dispatchingC) = []"
    by (simp add: dispatchingC_def scenarioA_done_def scenarioA_def scenarioA_config_def
      unframed_def eval_defs)
  have s: "sleepsOf (effects ?run) = [4000, 4000]"
    unfolding run' by (simp add: dispatched_def sleeps f u d tk s0)
  have e: "eventsOf (effects ?run)
       = eventsOf (effects dispatchingC) @ [jobCompleted (22, 3) 9, jobStarted (23, 4) 2]"
    unfolding run' using len(1) by (simp add: dispatched_def events f tk)
  have r: "settlementsOf (effects ?run)
       = settlementsOf (effects dispatchingC) @ [Resolve (22, 3) 9]"
    unfolding run' by (simp add: dispatched_def settle f tk)
  have t0: "map (\<lambda>job. (jobId job, status job, completedAt job, result job)) (terminal dispatchingC)
      = [((20, 1), Completed, Some 30, Some 7)]"
    by (simp add: dispatchingC_def scenarioA_done_def scenarioA_def scenarioA_config_def
      unframed_def eval_defs)
  have t: "map (\<lambda>job. (jobId job, status job, completedAt job, result job)) (terminal ?run)
       = [((20, 1), Completed, Some 30, Some 7), ((22, 3), Completed, Some 40, Some 9)]"
    unfolding run' by (simp add: dispatched_def t0 f)
  show ?thesis by (intro conjI h1 h2 h3 h4 c s e r t)
qed

section \<open>The dispatch pass\<close>


text \<open>
  C4. A dispatch pass, a call of \<open>processNext\<close> while no pass is running, takes the first
  \<open>k\<close> jobs of the queue, in the order of the queue, \<open>k\<close> being the smaller of the length of
  the queue and the number of free slots \<open>maxConcurrent - |processing|\<close> (for a ceiling that
  is no whole number, \<open>slots - |processing|\<close>); so it runs while the queue is not empty and
  the active set is below the ceiling, and ends with the queue empty or the active set not
  below the ceiling. For each of these jobs, head first, it removes the job from the
  queue, numbers the rest of the queue from 1, puts the job into the active set with the status
  processing and \<open>startedAt\<close>, emits \<open>jobStarted\<close> with the size of the active set, and
  calls \<open>executeJob\<close>, which calls the processor for attempt 1 and is suspended there: the
  loop goes on to the next job without waiting for the attempt. \<open>enqueue\<close> appends at the
  tail and nothing else adds to the queue, so the order of the queue is the order of arrival.
  With no attempt allowed (\<open>retryAttempts = 0\<close>) \<open>executeJob\<close> fails each job at once and
  frees its slot, and a pass that starts below the ceiling empties the queue.
\<close>

theorem dispatch_pass:
  assumes "\<not> isProcessing m"
    and "distinct (map jobId (queue m) @ map fst (processing m))"
    and "positionsInOrder (queue m)"
  shows "(1 \<le> retryAttempts (config m) \<longrightarrow>
       (\<exists>k. k = min (length (queue m)) (slots (config m) - length (processing m))
          \<and> processNext now m =
             m\<lparr>queue := updatePositions (drop k (queue m)),
               processing := processing m @
                  map (\<lambda>job. (jobId job, claimed now job)) (take k (queue m)),
               effects := effects m @
                  dispatchEffects (config m) (length (processing m))
                    (map jobId (take k (queue m))),
               suspended := suspended m @
                  map (\<lambda>job. \<lparr>fjob = claimed now job, attempt = 1, lastError = None,
                               awaiting = AwaitAttempt\<rparr>) (take k (queue m))\<rparr>
          \<and> map jobId (queue (processNext now m)) = drop k (map jobId (queue m))
          \<and> map position (queue (processNext now m)) = [1..<length (queue m) - k + 1]
          \<and> (queue (processNext now m) = []
               \<or> maxConcurrent (config m) \<le> real (length (processing (processNext now m))))
          \<and> (\<forall>n. maxConcurrent (config m) = real n \<longrightarrow>
                 k = min (length (queue m)) (n - length (processing m)))))
    \<and> (retryAttempts (config m) = 0 \<longrightarrow>
         processNext now m =
           (if real (length (processing m)) < maxConcurrent (config m)
            then m\<lparr>queue := [],
                   effects := effects m @
                     concat (map (\<lambda>j. [Emit (jobStarted j (Suc (length (processing m)))),
                                       Emit (jobFailed j unknownErrorMessage),
                                       Reject j processingFailedMessage])
                               (map jobId (queue m))),
                   terminal := terminal m @
                     map (\<lambda>job. (claimed now job)\<lparr>status := Failed, completedAt := Some now,
                                   error := Some unknownErrorMessage\<rparr>) (queue m)\<rparr>
            else m))"
proof (intro conjI impI)
  assume n: "1 \<le> retryAttempts (config m)"
  define k where "k = min (length (queue m)) (slots (config m) - length (processing m))"
  have e: "processNext now m = dispatched now k m"
    using processNext_closed(1) [OF assms n, of now] by (simp add: k_def dispatchCount_def)
  have 1: "processNext now m =
             m\<lparr>queue := updatePositions (drop k (queue m)),
               processing := processing m @
                  map (\<lambda>job. (jobId job, claimed now job)) (take k (queue m)),
               effects := effects m @
                  dispatchEffects (config m) (length (processing m))
                    (map jobId (take k (queue m))),
               suspended := suspended m @
                  map (\<lambda>job. \<lparr>fjob = claimed now job, attempt = 1, lastError = None,
                               awaiting = AwaitAttempt\<rparr>) (take k (queue m))\<rparr>"
    using e by (simp add: dispatched_def)
  have 2: "map jobId (queue (processNext now m)) = drop k (map jobId (queue m))"
    unfolding e by (simp add: dispatched_def drop_map)
  have 3: "map position (queue (processNext now m)) = [1..<length (queue m) - k + 1]"
    unfolding e by (simp add: dispatched_def map_position_updatePositions)
  have "queue (processNext now m) = []
      \<or> \<not> length (processing (processNext now m)) < slots (config m)"
    unfolding e by (auto simp: dispatched_def k_def updatePositions_def)
  then have 4: "queue (processNext now m) = []
      \<or> maxConcurrent (config m) \<le> real (length (processing (processNext now m)))"
    by (simp only: guard_slots [symmetric] not_less)
  have 5: "\<forall>n. maxConcurrent (config m) = real n \<longrightarrow>
      k = min (length (queue m)) (n - length (processing m))"
    by (simp add: k_def slots_whole)
  show "\<exists>k. k = min (length (queue m)) (slots (config m) - length (processing m))
          \<and> processNext now m =
             m\<lparr>queue := updatePositions (drop k (queue m)),
               processing := processing m @
                  map (\<lambda>job. (jobId job, claimed now job)) (take k (queue m)),
               effects := effects m @
                  dispatchEffects (config m) (length (processing m))
                    (map jobId (take k (queue m))),
               suspended := suspended m @
                  map (\<lambda>job. \<lparr>fjob = claimed now job, attempt = 1, lastError = None,
                               awaiting = AwaitAttempt\<rparr>) (take k (queue m))\<rparr>
          \<and> map jobId (queue (processNext now m)) = drop k (map jobId (queue m))
          \<and> map position (queue (processNext now m)) = [1..<length (queue m) - k + 1]
          \<and> (queue (processNext now m) = []
               \<or> maxConcurrent (config m) \<le> real (length (processing (processNext now m))))
          \<and> (\<forall>n. maxConcurrent (config m) = real n \<longrightarrow>
                 k = min (length (queue m)) (n - length (processing m)))"
    using k_def 1 2 3 4 5 by blast
next
  assume z: "retryAttempts (config m) = 0"
  show "processNext now m =
           (if real (length (processing m)) < maxConcurrent (config m)
            then m\<lparr>queue := [],
                   effects := effects m @
                     concat (map (\<lambda>j. [Emit (jobStarted j (Suc (length (processing m)))),
                                       Emit (jobFailed j unknownErrorMessage),
                                       Reject j processingFailedMessage])
                               (map jobId (queue m))),
                   terminal := terminal m @
                     map (\<lambda>job. (claimed now job)\<lparr>status := Failed, completedAt := Some now,
                                   error := Some unknownErrorMessage\<rparr>) (queue m)\<rparr>
            else m)"
    using processNext_closed(2) [OF assms z, of now] processNext_closed(3) [OF assms z, of now]
    by (simp add: drained_def guard_slots)
qed

lemma scenarioA_done_facts:
  "\<not> isProcessing scenarioA_done" "retryAttempts (config scenarioA_done) = 3"
  "slots (config scenarioA_done) = 2"
  "map jobId (queue scenarioA_done) = [(22, 3), (23, 4), (24, 5)]"
  "map position (queue scenarioA_done) = [1, 2, 3]"
  "map data (queue scenarioA_done) = [''c'', ''d'', ''e'']"
  "map fst (processing scenarioA_done) = [(21, 2)]"
  by (simp_all add: scenarioA_done_def scenarioA_def scenarioA_config_def unframed_def eval_defs)

theorem dispatch_pass_witness:
  "\<not> isProcessing scenarioA_done
   \<and> distinct (map jobId (queue scenarioA_done) @ map fst (processing scenarioA_done))
   \<and> positionsInOrder (queue scenarioA_done)
   \<and> 1 \<le> retryAttempts (config scenarioA_done)
   \<and> map jobId (queue (processNext 30 scenarioA_done)) = [(23, 4), (24, 5)]
   \<and> map position (queue (processNext 30 scenarioA_done)) = [1, 2]
   \<and> map fst (processing (processNext 30 scenarioA_done)) = [(21, 2), (22, 3)]
   \<and> callsOf (effects (processNext 30 scenarioA_done))
       = callsOf (effects scenarioA_done) @ [((22, 3), 1)]"
proof -
  note f = scenarioA_done_facts
  have h1: "\<not> isProcessing scenarioA_done" by (rule f)
  have h2: "distinct (map jobId (queue scenarioA_done) @ map fst (processing scenarioA_done))"
    by (simp add: f)
  have len: "length (queue scenarioA_done) = 3" "length (processing scenarioA_done) = 1"
    using arg_cong [OF f(4), of length] arg_cong [OF f(7), of length] by simp_all
  have u: "[Suc 0..<4] = [1, 2, 3]" "[Suc 0..<3] = [1, 2]" by (simp_all add: upt_rec)
  have h3: "positionsInOrder (queue scenarioA_done)"
    by (simp add: positionsInOrder_def f len u)
  have h4: "1 \<le> retryAttempts (config scenarioA_done)" by (simp add: f)
  from dispatch_pass [OF h1 h2 h3, of 30, THEN conjunct1, rule_format, OF h4]
  obtain k where k: "k = min (length (queue scenarioA_done))
        (slots (config scenarioA_done) - length (processing scenarioA_done))"
    and e: "processNext 30 scenarioA_done =
             scenarioA_done\<lparr>queue := updatePositions (drop k (queue scenarioA_done)),
               processing := processing scenarioA_done @
                  map (\<lambda>job. (jobId job, claimed 30 job)) (take k (queue scenarioA_done)),
               effects := effects scenarioA_done @
                  dispatchEffects (config scenarioA_done) (length (processing scenarioA_done))
                    (map jobId (take k (queue scenarioA_done))),
               suspended := suspended scenarioA_done @
                  map (\<lambda>job. \<lparr>fjob = claimed 30 job, attempt = 1, lastError = None,
                               awaiting = AwaitAttempt\<rparr>) (take k (queue scenarioA_done))\<rparr>"
    and ids: "map jobId (queue (processNext 30 scenarioA_done))
        = drop k (map jobId (queue scenarioA_done))"
    and pos: "map position (queue (processNext 30 scenarioA_done))
        = [1..<length (queue scenarioA_done) - k + 1]"
    by blast
  have k1: "k = 1" using k by (simp add: len f)
  have c1: "map jobId (queue (processNext 30 scenarioA_done)) = [(23, 4), (24, 5)]"
    using ids by (simp add: k1 f)
  have c2: "map position (queue (processNext 30 scenarioA_done)) = [1, 2]"
    using pos by (simp add: k1 len u)
  have tk: "map jobId (take (Suc 0) (queue scenarioA_done)) = [(22, 3)]"
    using f(4) by (simp add: take_map [symmetric])
  have c3: "map fst (processing (processNext 30 scenarioA_done)) = [(21, 2), (22, 3)]"
    unfolding e k1 using tk by (simp add: f comp_def)
  have c4: "callsOf (effects (processNext 30 scenarioA_done))
       = callsOf (effects scenarioA_done) @ [((22, 3), 1)]"
    unfolding e k1 by (simp add: tk)
  show ?thesis by (intro conjI h1 h2 h3 h4 c1 c2 c3 c4)
qed

section \<open>Settlement of the completion channel\<close>

lemma settlementsOf_dispatch:
  "1 \<le> retryAttempts (config m)
     \<Longrightarrow> settlementsOf (effects (dispatch now job rest m)) = settlementsOf (effects m)"
  by (simp add: dispatch_def Let_def executeJob_inLoop_def callProcessor_def)

lemma settlementsOf_processNext:
  assumes "1 \<le> retryAttempts (config m)"
  shows "settlementsOf (effects (processNext now m)) = settlementsOf (effects m)"
proof -
  have "settlementsOf (effects (processNext now m)) = settlementsOf (effects m)
      \<and> config (processNext now m) = config m"
  proof (rule processNext_rule [where P = "\<lambda>m'. settlementsOf (effects m') = settlementsOf (effects m)
      \<and> config m' = config m"])
    show "settlementsOf (effects m) = settlementsOf (effects m) \<and> config m = config m" by simp
    show "settlementsOf (effects (m'\<lparr>isProcessing := b\<rparr>)) = settlementsOf (effects m)
        \<and> config (m'\<lparr>isProcessing := b\<rparr>) = config m"
      if "settlementsOf (effects m') = settlementsOf (effects m) \<and> config m' = config m" for m' b
      using that by simp
    show "settlementsOf (effects (dispatch now job rest m')) = settlementsOf (effects m)
        \<and> config (dispatch now job rest m') = config m"
      if "settlementsOf (effects m') = settlementsOf (effects m) \<and> config m' = config m"
      for job rest m'
      using that assms settlementsOf_dispatch [of m' now job rest] by simp
  qed
  then show ?thesis by simp
qed



lemma ceiling_zero_never_settles:
  assumes "reachable m" and "maxConcurrent (config m) \<le> 0"
  shows "suspended m = [] \<and> processing m = [] \<and> settledIds (effects m) = []"
proof -
  have "slots (config m) = 0
      \<longrightarrow> suspended m = [] \<and> processing m = [] \<and> settledIds (effects m) = []"
    using assms(1)
    by (induction rule: reachable_rule)
      (auto simp: newQueueManager_def admitted_def completeJob_def failJob_def sleep_def
        callProcessor_def unframed_def)
  then show ?thesis using assms(2) by (simp add: slots_def)
qed

subsection \<open>The awaits ahead of a job\<close>








lemma framed_not_queued:
  assumes "wellFormed m" and "f \<in> set (suspended m)"
  shows "jobId (fjob f) \<notin> set (map jobId (queue m))"
proof -
  have "jobId (fjob f) \<in> set (frameIds m)" using assms(2) by (rule frameId_in)
  then have p: "jobId (fjob f) \<in> set (map fst (processing m))"
    using wellFormedD(3) [OF assms(1)] by simp
  have "distinct (map jobId (queue m) @ map fst (processing m))"
    using assms(1) by (rule wellFormed_live)
  then show ?thesis using p by (simp only: distinct_append) blast
qed










lemma config_processNext [simp]: "config (processNext now m) = config m"
  by (rule processNext_rule [where P = "\<lambda>m'. config m' = config m"]) simp_all

lemma config_reachable_step:
  "config (snd (enqueue now d m)) = config m"
  "config (attemptSettled now f x m) = config m"
  "config (sleepOver now f m) = config m"
  by (simp_all add: enqueue_def attemptSettled_def sleepOver_def Let_def executeJob_from_def
      completeJob_def failJob_def sleep_def callProcessor_def split: settlement.splits)

lemma config_act [simp]: "config (act a m) = config m"
  by (cases a) (simp_all add: config_reachable_step wake_def split: option.splits awaiting.splits)

lemma config_run [simp]: "config (run as m) = config m"
  by (induction as arbitrary: m) simp_all


















section \<open>The timeout of an attempt\<close>

text \<open>
  C9. Every attempt calls the processor, which returns a promise, and arms a timer of
  \<open>jobTimeout\<close> milliseconds, the first attempt in the dispatch loop and each later one
  after its delay; the attempt ends as the first of the two to settle does. When the timer is
  first, the attempt fails with the timeout error, whatever the promise of the processor does
  later (a result, an error, or nothing at all): the call goes on exactly as after a failure
  of the processor with the timeout message, which uses up this one attempt. If a retry is left, the call sleeps
  \<open>retryDelay * attempt\<close> (the timeout message has none of the rate-limit markers) and calls
  the processor with the next attempt number; if not, it takes the failure path with the
  timeout message. When the processor is first, the attempt ends as the processor's promise
  does: with a result, the job is completed with that result; with an error, the attempt
  fails with that error. The effects are those listed and no others: nothing is done to the
  call of the processor that lost the race.
\<close>

theorem attempt_timeout:
  "effects (callProcessor job a le m) =
      effects m @ [CallProcessor (jobId job) a, SetTimeout (jobId job) (jobTimeout (config m))]
   \<and> (1 \<le> retryAttempts (config m) \<longrightarrow> executeJob_inLoop now job m = callProcessor job 1 None m)
   \<and> (a \<le> retryAttempts (config m) \<longrightarrow> executeJob_from now job a le m = callProcessor job a le m)
   \<and> withTimeout (TimerFirst late) = Rejected timeoutMessage
   \<and> attemptSettled now f (TimerFirst late) m
       = attemptSettled now f (ProcessorFirst (Rejected timeoutMessage)) m
   \<and> (attempt f < retryAttempts (config m) \<longrightarrow>
        attemptSettled now f (TimerFirst late) m =
          m\<lparr>effects := effects m @ [Sleep (jobId (fjob f)) (retryDelay (config m) * attempt f)],
            suspended := remove1 f (suspended m) @
              [\<lparr>fjob = fjob f, attempt = attempt f, lastError = Some timeoutMessage,
                awaiting = AwaitSleep\<rparr>]\<rparr>
        \<and> effects (sleepOver now' \<lparr>fjob = fjob f, attempt = attempt f,
               lastError = Some timeoutMessage, awaiting = AwaitSleep\<rparr>
             (attemptSettled now f (TimerFirst late) m)) =
            effects m @ [Sleep (jobId (fjob f)) (retryDelay (config m) * attempt f),
              CallProcessor (jobId (fjob f)) (attempt f + 1),
              SetTimeout (jobId (fjob f)) (jobTimeout (config m))])
   \<and> (retryAttempts (config m) \<le> attempt f \<longrightarrow>
        attemptSettled now f (TimerFirst late) m =
          processNext now
            (m\<lparr>suspended := remove1 f (suspended m),
               processing := AList.delete (jobId (fjob f)) (processing m),
               effects := effects m @
                 [Emit (jobFailed (jobId (fjob f)) timeoutMessage),
                  Reject (jobId (fjob f)) timeoutMessage],
               terminal := terminal m @
                 [(fjob f)\<lparr>status := Failed, completedAt := Some now,
                    error := Some timeoutMessage\<rparr>]\<rparr>))
   \<and> withTimeout (ProcessorFirst s) = s
   \<and> attemptSettled now f (ProcessorFirst (Fulfilled r)) m =
        processNext now
          (m\<lparr>suspended := remove1 f (suspended m),
             processing := AList.delete (jobId (fjob f)) (processing m),
             effects := effects m @
               [Emit (jobCompleted (jobId (fjob f)) r), Resolve (jobId (fjob f)) r],
             terminal := terminal m @
               [(fjob f)\<lparr>status := Completed, completedAt := Some now, result := Some r\<rparr>]\<rparr>)
   \<and> (attempt f < retryAttempts (config m) \<longrightarrow>
        attemptSettled now f (ProcessorFirst (Rejected msg)) m =
          m\<lparr>effects := effects m @
               [Sleep (jobId (fjob f)) (retryDelayFor (config m) (attempt f) msg)],
            suspended := remove1 f (suspended m) @
              [\<lparr>fjob = fjob f, attempt = attempt f, lastError = Some msg,
                awaiting = AwaitSleep\<rparr>]\<rparr>)
   \<and> (retryAttempts (config m) \<le> attempt f \<longrightarrow>
        attemptSettled now f (ProcessorFirst (Rejected msg)) m =
          processNext now
            (m\<lparr>suspended := remove1 f (suspended m),
               processing := AList.delete (jobId (fjob f)) (processing m),
               effects := effects m @
                 [Emit (jobFailed (jobId (fjob f)) (if msg = [] then unknownErrorMessage else msg)),
                  Reject (jobId (fjob f)) msg],
               terminal := terminal m @
                 [(fjob f)\<lparr>status := Failed, completedAt := Some now,
                    error := Some (if msg = [] then unknownErrorMessage else msg)\<rparr>]\<rparr>))"
proof -
  have ne: "timeoutMessage \<noteq> []" by (simp add: timeoutMessage_def)
  have nr: "\<not> isRateLimited timeoutMessage"
    by (simp add: isRateLimited_def timeoutMessage_def)
  show ?thesis
    using ne nr
    by (simp add: callProcessor_def executeJob_inLoop_def executeJob_from_def withTimeout_def
        attemptSettled_def Let_def sleep_def retryDelayFor_def sleepOver_def failJob_def
        completeJob_def errorText_def rejectionOf_def)
qed

theorem attempt_timeout_witness:
  "attempt scenarioB_frame < retryAttempts (config scenarioB)
   \<and> effects (attemptSettled 12 scenarioB_frame (TimerFirst (Some (Fulfilled 7))) scenarioB)
       = effects scenarioB @ [Sleep (10, 1) 2000]
   \<and> effects (sleepOver 13 \<lparr>fjob = fjob scenarioB_frame, attempt = 1,
          lastError = Some timeoutMessage, awaiting = AwaitSleep\<rparr>
        (attemptSettled 12 scenarioB_frame (TimerFirst (Some (Fulfilled 7))) scenarioB))
       = effects scenarioB @ [Sleep (10, 1) 2000, CallProcessor (10, 1) 2, SetTimeout (10, 1) 300000]
   \<and> settlementsOf (effects
         (attemptSettled 12 scenarioB_frame (TimerFirst (Some (Fulfilled 7))) scenarioB)) = []
   \<and> settlementsOf (effects
         (attemptSettled 12 scenarioB_frame (ProcessorFirst (Fulfilled 7)) scenarioB))
       = [Resolve (10, 1) 7]
   \<and> effects (attemptSettled 12 scenarioB_frame (ProcessorFirst (Rejected ''HTTP 429'')) scenarioB)
       = effects scenarioB @ [Sleep (10, 1) 4000]"
proof -
  have v: "attempt scenarioB_frame = 1" "retryAttempts (config scenarioB) = 3"
    "retryDelay (config scenarioB) = 2000" "jobId (fjob scenarioB_frame) = (10, 1)"
    "jobTimeout (config scenarioB) = 300000" "settlementsOf (effects scenarioB) = []"
    by (simp_all add: scenarioB_frame_def scenarioB_def scenarioB_config_def eval_defs)
  have h: "attempt scenarioB_frame < retryAttempts (config scenarioB)" by (simp add: v)
  note all = attempt_timeout [where m = scenarioB and late = "Some (Fulfilled 7)" and now = 12
        and f = scenarioB_frame and now' = 13 and r = 7 and msg = "''HTTP 429''"]
  note t = all [THEN conjunct2, THEN conjunct2, THEN conjunct2, THEN conjunct2, THEN conjunct2,
      THEN conjunct1, rule_format, OF h]
  note tail = all [THEN conjunct2, THEN conjunct2, THEN conjunct2, THEN conjunct2, THEN conjunct2,
      THEN conjunct2, THEN conjunct2, THEN conjunct2]
  note won = tail [THEN conjunct1]
  note lost = tail [THEN conjunct2, THEN conjunct1, rule_format, OF h]
  have 1: "effects (attemptSettled 12 scenarioB_frame (TimerFirst (Some (Fulfilled 7))) scenarioB)
       = effects scenarioB @ [Sleep (10, 1) 2000]"
    by (simp add: t [THEN conjunct1] v)
  have 2: "effects (sleepOver 13 \<lparr>fjob = fjob scenarioB_frame, attempt = 1,
          lastError = Some timeoutMessage, awaiting = AwaitSleep\<rparr>
        (attemptSettled 12 scenarioB_frame (TimerFirst (Some (Fulfilled 7))) scenarioB))
       = effects scenarioB @ [Sleep (10, 1) 2000, CallProcessor (10, 1) 2, SetTimeout (10, 1) 300000]"
    using t [THEN conjunct2] by (simp add: v)
  have 3: "settlementsOf (effects
         (attemptSettled 12 scenarioB_frame (TimerFirst (Some (Fulfilled 7))) scenarioB)) = []"
    by (simp add: 1 v)
  have n: "1 \<le> retryAttempts (config (scenarioB
      \<lparr>suspended := remove1 scenarioB_frame (suspended scenarioB),
        processing := AList.delete (jobId (fjob scenarioB_frame)) (processing scenarioB),
        effects := effects scenarioB @
          [Emit (jobCompleted (jobId (fjob scenarioB_frame)) 7),
           Resolve (jobId (fjob scenarioB_frame)) 7],
        terminal := terminal scenarioB @
          [(fjob scenarioB_frame)\<lparr>status := Completed, completedAt := Some 12,
             result := Some 7\<rparr>]\<rparr>))"
    by (simp add: v)
  have 4: "settlementsOf (effects
         (attemptSettled 12 scenarioB_frame (ProcessorFirst (Fulfilled 7)) scenarioB))
       = [Resolve (10, 1) 7]"
    unfolding won settlementsOf_processNext [OF n] by (simp add: v)
  have d: "retryDelayFor (config scenarioB) (Suc 0) ''HTTP 429'' = 4000"
    by (simp add: retryDelayFor_def isRateLimited_def v)
  have 5: "effects (attemptSettled 12 scenarioB_frame (ProcessorFirst (Rejected ''HTTP 429''))
         scenarioB) = effects scenarioB @ [Sleep (10, 1) 4000]"
    by (simp add: lost v d)
  show ?thesis by (intro conjI h 1 2 3 4 5)
qed

end
